theory Spec2Isabelle
  imports Main
begin

section \<open>Strings and arrays as the JavaScript source uses them\<close>

text \<open>
  The server code of the DNS manager (the second document of \<^verbatim>\<open>src/frontend/src/App.js\<close>,
  lines 304 to 795) works on JavaScript strings. They are modelled as \<^typ>\<open>string\<close>; every
  character the code looks at is ASCII. The string methods used by the source are written out.
\<close>

text \<open>\<^verbatim>\<open>s.startsWith(p)\<close>\<close>

definition starts_with :: "string \<Rightarrow> string \<Rightarrow> bool" where
  "starts_with s p = (take (length p) s = p)"

text \<open>\<^verbatim>\<open>s.includes(p)\<close>: \<open>p\<close> occurs somewhere in \<open>s\<close>.\<close>

fun str_includes :: "string \<Rightarrow> string \<Rightarrow> bool" where
  "str_includes [] p = (p = [])"
| "str_includes (c # cs) p = (starts_with (c # cs) p \<or> str_includes cs p)"

text \<open>\<^verbatim>\<open>s.split('.')\<close>: never empty; the empty string splits to one empty label.\<close>

fun split_dot :: "string \<Rightarrow> string list" where
  "split_dot [] = [[]]"
| "split_dot (c # cs) =
     (if c = CHR ''.'' then [] # split_dot cs
      else (case split_dot cs of [] \<Rightarrow> [[c]] | p # ps \<Rightarrow> (c # p) # ps))"

text \<open>\<^verbatim>\<open>parts.join('.')\<close>\<close>

fun join_dot :: "string list \<Rightarrow> string" where
  "join_dot [] = []"
| "join_dot [p] = p"
| "join_dot (p # q # ps) = p @ ''.'' @ join_dot (q # ps)"

text \<open>
  \<^verbatim>\<open>xs.slice(start, end)\<close> as ECMAScript defines it: a negative index counts from the end,
  both indices are clamped to the array, and an end before the start gives the empty array.
  \<^verbatim>\<open>xs.slice(start)\<close> is \<open>js_slice start (int (length xs)) xs\<close>.
\<close>

definition js_rel_index :: "int \<Rightarrow> nat \<Rightarrow> nat" where
  "js_rel_index i len = (if i < 0 then nat (max (int len + i) 0) else min (nat i) len)"

definition js_slice :: "int \<Rightarrow> int \<Rightarrow> 'a list \<Rightarrow> 'a list" where
  "js_slice start end xs =
     (let k = js_rel_index start (length xs); final = js_rel_index end (length xs)
      in take (final - k) (drop k xs))"

text \<open>
  Truthiness of a string, and \<^verbatim>\<open>a && b\<close>, \<^verbatim>\<open>a || b\<close> on strings: the empty string is the only
  falsy string; \<^verbatim>\<open>&&\<close> returns its left operand when that is falsy and its right operand
  otherwise, \<^verbatim>\<open>||\<close> the other way round.
\<close>

definition truthy :: "string \<Rightarrow> bool" where
  "truthy s = (s \<noteq> [])"

definition js_and :: "string \<Rightarrow> string \<Rightarrow> string" where
  "js_and a b = (if truthy a then b else a)"

definition js_or :: "string \<Rightarrow> string \<Rightarrow> string" where
  "js_or a b = (if truthy a then a else b)"

text \<open>
  \<^verbatim>\<open>[...new Set(xs)]\<close>: a Set keeps the first occurrence of each value, in insertion order.
\<close>

definition set_add :: "'a list \<Rightarrow> 'a \<Rightarrow> 'a list" where
  "set_add acc x = (if x \<in> set acc then acc else acc @ [x])"

definition js_set_of :: "'a list \<Rightarrow> 'a list" where
  "js_set_of xs = foldl set_add [] xs"

section \<open>The regular expressions of \<^verbatim>\<open>extractTraefikHosts\<close>\<close>

text \<open>
  A matcher tries its pattern at the start of a string and returns the text of capture
  group 1 with the length of the whole match.

  \<^verbatim>\<open>/Host\(`([^`]+)`\)/\<close>: after the literal \<^verbatim>\<open>Host(`\<close> the greedy class takes every character
  up to the next backtick; the match succeeds when that run is not empty and is followed by a
  backtick and a closing parenthesis. Backtracking to a shorter run cannot help, because the
  character after a shorter run is not a backtick.
\<close>

definition match_host_backtick :: "string \<Rightarrow> (string \<times> nat) option" where
  "match_host_backtick s =
     (if starts_with s ''Host(`'' then
        (let rest = drop 6 s;
             g = takeWhile (\<lambda>c. c \<noteq> CHR ''`'') rest;
             after = dropWhile (\<lambda>c. c \<noteq> CHR ''`'') rest
         in if g \<noteq> [] \<and> starts_with after ''`)'' then Some (g, 6 + length g + 2) else None)
      else None)"

text \<open>
  \<^verbatim>\<open>/Host\(([^)]+)\)/\<close>: after the literal \<^verbatim>\<open>Host(\<close> the class takes every character up to the
  next closing parenthesis; the match succeeds when the run is not empty and a closing
  parenthesis follows it.
\<close>

definition match_host_any :: "string \<Rightarrow> (string \<times> nat) option" where
  "match_host_any s =
     (if starts_with s ''Host('' then
        (let rest = drop 5 s;
             g = takeWhile (\<lambda>c. c \<noteq> CHR '')'') rest;
             after = dropWhile (\<lambda>c. c \<noteq> CHR '')'') rest
         in if g \<noteq> [] \<and> starts_with after '')'' then Some (g, 5 + length g + 1) else None)
      else None)"

text \<open>
  \<^verbatim>\<open>value.match(/.../g)\<close> followed by \<^verbatim>\<open>match.match(/.../)[1]\<close> on every hit: the global
  search takes the leftmost match, continues right after it, and moves one character on
  where the pattern does not match. Matching the pattern again on the text of a hit gives
  the same capture group, so the groups are collected directly. No hit (\<^verbatim>\<open>null\<close> in the
  source) is the empty list.
\<close>

fun match_all :: "(string \<Rightarrow> (string \<times> nat) option) \<Rightarrow> string \<Rightarrow> string list" where
  "match_all m [] = []"
| "match_all m (c # cs) =
     (case m (c # cs) of
        Some (g, n) \<Rightarrow> g # match_all m (drop (n - 1) cs)
      | None \<Rightarrow> match_all m cs)"

text \<open>\<^verbatim>\<open>.replace(/['"]/g, '')\<close>: single and double quotes are removed, backticks are not.\<close>

definition strip_quotes :: "string \<Rightarrow> string" where
  "strip_quotes s = filter (\<lambda>c. c \<noteq> CHR 0x27 \<and> c \<noteq> CHR 0x22) s"

section \<open>The label parser\<close>

text \<open>
  A label map is the list of its entries in the order of \<^verbatim>\<open>Object.entries\<close>;
  \<^verbatim>\<open>labels[k]\<close> is \<^term>\<open>map_of\<close> on it.
\<close>

type_synonym labels = "(string \<times> string) list"

definition hosts_of_label :: "string \<times> string \<Rightarrow> string list" where
  "hosts_of_label kv =
     (case kv of (key, val) \<Rightarrow>
        if str_includes key ''traefik.http.routers'' \<and> str_includes key ''.rule''
        then match_all match_host_backtick val @ map strip_quotes (match_all match_host_any val)
        else [])"

definition extractTraefikHosts :: "labels \<Rightarrow> string list" where
  "extractTraefikHosts labels = js_set_of (concat (map hosts_of_label labels))"

section \<open>Configuration, container runtime and registrar\<close>

text \<open>
  The \<^verbatim>\<open>config\<close> object. The three numbers come from \<^verbatim>\<open>parseInt(...) || default\<close>, so they
  are integers (a negative value is kept, zero and an unreadable value give the default).
\<close>

record config =
  accountName :: string
  apiKey :: string
  deleteDelay :: int
  pollInterval :: int
  port :: int
  targetDomain :: string

text \<open>
  The container runtime as one tick sees it. \<^verbatim>\<open>docker.listContainers({all: true})\<close> either
  throws or returns the container descriptions; \<^verbatim>\<open>docker.getContainer(id).inspect()\<close> either
  throws or returns the details, of which the code reads \<^verbatim>\<open>Id\<close> and \<^verbatim>\<open>Config.Labels\<close> (which may be
  \<^verbatim>\<open>null\<close>). A thrown \<^verbatim>\<open>Error\<close> is \<open>Inl\<close> of its message.
\<close>

record container_info =
  ci_Id :: string
  ci_State :: string

record container_details =
  cd_Id :: string
  cd_Labels :: "labels option"

record docker =
  listContainers :: "string + container_info list"
  inspect :: "string \<Rightarrow> string + container_details"

text \<open>
  The registrar behind \<^verbatim>\<open>SimplyAPI\<close>. Its answer to a request may depend on the arguments and
  on the number of requests it has received from the engine before this one, so that two
  requests with equal arguments can be answered differently. \<open>Inl\<close> is the message of the
  error thrown by \<^verbatim>\<open>axios\<close> (or by reading the response), \<open>Inr\<close> the record id of a created
  record.
\<close>

type_synonym record_id = nat

record registrar =
  post_record :: "nat \<Rightarrow> string \<Rightarrow> string \<Rightarrow> string \<Rightarrow> nat \<Rightarrow> string + record_id"
  delete_record :: "nat \<Rightarrow> string \<Rightarrow> record_id \<Rightarrow> string + unit"

section \<open>Engine state\<close>

record managed_record =
  recordId :: record_id
  hostname :: string
  domain :: string
  subdomain :: string
  containerId :: string

text \<open>
  A JavaScript \<^verbatim>\<open>Map\<close> is the list of its entries in insertion order: \<^verbatim>\<open>set\<close> on a present key
  replaces the value in place, on an absent key it appends; \<^verbatim>\<open>delete\<close> removes the entry.
\<close>

definition jsmap_has :: "('k \<times> 'v) list \<Rightarrow> 'k \<Rightarrow> bool" where
  "jsmap_has m k = (k \<in> set (map fst m))"

definition jsmap_get :: "('k \<times> 'v) list \<Rightarrow> 'k \<Rightarrow> 'v option" where
  "jsmap_get m k = map_of m k"

fun jsmap_set :: "'k \<Rightarrow> 'v \<Rightarrow> ('k \<times> 'v) list \<Rightarrow> ('k \<times> 'v) list" where
  "jsmap_set k v [] = [(k, v)]"
| "jsmap_set k v (p # ps) = (if fst p = k then (k, v) # ps else p # jsmap_set k v ps)"

definition jsmap_delete :: "'k \<Rightarrow> ('k \<times> 'v) list \<Rightarrow> ('k \<times> 'v) list" where
  "jsmap_delete k m = filter (\<lambda>p. fst p \<noteq> k) m"

text \<open>
  The process-wide state: the two tables of the source, the timeouts of the event loop that
  are armed and have neither fired nor been cleared (handle and the container id captured by
  the callback), the next unused timer handle, and the number of requests sent to the
  registrar so far. The delay of a timeout is not modelled: a timeout may fire at any later
  step.
\<close>

record engine =
  managedRecords :: "(string \<times> managed_record) list"
  deletePendingRecords :: "(string \<times> nat) list"
  timers :: "(nat \<times> string) list"
  next_timer :: nat
  requests :: nat

definition init :: engine where
  "init = \<lparr>managedRecords = [], deletePendingRecords = [], timers = [], next_timer = 0,
            requests = 0\<rparr>"

text \<open>
  What an operation does to the outside: the requests to the registrar with their outcome,
  and the log lines (level and message; the data object and the time stamp are left out, and
  so is the number of seconds that the message of \<open>scheduleRecordDeletion\<close> ends with).
\<close>

datatype level = Info | Warn | Err

datatype event =
  Log level string
| CreateCNAME string string string nat "string + record_id"
| DeleteRecord string record_id "string + unit"

fun is_request :: "event \<Rightarrow> bool" where
  "is_request (Log l m) = False"
| "is_request (CreateCNAME d n t ttl r) = True"
| "is_request (DeleteRecord d i r) = True"

text \<open>The requests of a trace, without their outcomes.\<close>

datatype request = ReqCreate string string string nat | ReqDelete string record_id

fun request_of :: "event \<Rightarrow> request list" where
  "request_of (Log l m) = []"
| "request_of (CreateCNAME d n t ttl r) = [ReqCreate d n t ttl]"
| "request_of (DeleteRecord d i r) = [ReqDelete d i]"

definition requests_of :: "event list \<Rightarrow> request list" where
  "requests_of evs = concat (map request_of evs)"

section \<open>The registrar client\<close>

text \<open>\<^verbatim>\<open>SimplyAPI.createCNAMERecord\<close>: one request; logs and rethrows on failure.\<close>

definition createCNAMERecord ::
  "registrar \<Rightarrow> string \<Rightarrow> string \<Rightarrow> string \<Rightarrow> nat \<Rightarrow> engine
     \<Rightarrow> (string + record_id) \<times> event list \<times> engine" where
  "createCNAMERecord reg dmn name target ttl s =
     (let res = post_record reg (requests s) dmn name target ttl;
          s' = s\<lparr>requests := Suc (requests s)\<rparr>
      in case res of
           Inr rid \<Rightarrow>
             (Inr rid,
              [CreateCNAME dmn name target ttl res,
               Log Info (''Created CNAME record: '' @ name @ ''.'' @ dmn @ '' -> '' @ target)],
              s')
         | Inl e \<Rightarrow>
             (Inl e,
              [CreateCNAME dmn name target ttl res,
               Log Err (''Failed to create CNAME record: '' @ name @ ''.'' @ dmn)],
              s'))"

text \<open>\<^verbatim>\<open>SimplyAPI.deleteRecord\<close>\<close>

definition deleteRecord ::
  "registrar \<Rightarrow> string \<Rightarrow> record_id \<Rightarrow> engine \<Rightarrow> (string + unit) \<times> event list \<times> engine" where
  "deleteRecord reg dmn rid s =
     (let res = delete_record reg (requests s) dmn rid;
          s' = s\<lparr>requests := Suc (requests s)\<rparr>
      in case res of
           Inr u \<Rightarrow> (Inr (), [DeleteRecord dmn rid res, Log Info ''Deleted DNS record''], s')
         | Inl e \<Rightarrow> (Inl e, [DeleteRecord dmn rid res, Log Err ''Failed to delete DNS record''], s'))"

section \<open>Creating the records of a container\<close>

text \<open>The body of the loop over the hosts in \<^verbatim>\<open>createDNSRecordsForContainer\<close>.\<close>

definition create_for_host ::
  "config \<Rightarrow> registrar \<Rightarrow> string \<Rightarrow> string \<Rightarrow> engine \<Rightarrow> event list \<times> engine" where
  "create_for_host cfg reg cid host s =
     (let parts = split_dot host in
      if length parts < 2 then ([Log Warn (''Invalid hostname format: '' @ host)], s)
      else
        let sub = join_dot (js_slice 0 (- 2) parts);
            dmn = join_dot (js_slice (- 2) (int (length parts)) parts)
        in if \<not> truthy sub then ([Log Warn (''No subdomain found for host: '' @ host)], s)
           else
             (case createCNAMERecord reg dmn sub
                     (js_or (targetDomain cfg) host) 3600 s of
                (Inr rid, evs, s') \<Rightarrow>
                  (evs @ [Log Info ''DNS record created for container''],
                   s'\<lparr>managedRecords :=
                        jsmap_set (cid @ ''-'' @ host)
                          \<lparr>recordId = rid, hostname = host, domain = dmn, subdomain = sub,
                           containerId = cid\<rparr>
                          (managedRecords s')\<rparr>)
              | (Inl e, evs, s') \<Rightarrow>
                  (evs @ [Log Err (''Failed to create DNS record for '' @ host)], s')))"

fun create_for_hosts ::
  "config \<Rightarrow> registrar \<Rightarrow> string \<Rightarrow> string list \<Rightarrow> engine \<Rightarrow> event list \<times> engine" where
  "create_for_hosts cfg reg cid [] s = ([], s)"
| "create_for_hosts cfg reg cid (h # hs) s =
     (case create_for_host cfg reg cid h s of
        (e1, s1) \<Rightarrow>
          (case create_for_hosts cfg reg cid hs s1 of (e2, s2) \<Rightarrow> (e1 @ e2, s2)))"

text \<open>\<^verbatim>\<open>containerInfo.Config.Labels || {}\<close>\<close>

definition labels_of :: "container_details \<Rightarrow> labels" where
  "labels_of info = (case cd_Labels info of None \<Rightarrow> [] | Some l \<Rightarrow> l)"

text \<open>
  \<^verbatim>\<open>createDNSRecordsForContainer\<close>, for the container handle of the given full id. Its outer
  \<^verbatim>\<open>catch\<close> logs a failing inspection; the function never throws.
\<close>

definition createDNSRecordsForContainer ::
  "config \<Rightarrow> docker \<Rightarrow> registrar \<Rightarrow> string \<Rightarrow> engine \<Rightarrow> event list \<times> engine" where
  "createDNSRecordsForContainer cfg dk reg full_id s =
     (case inspect dk full_id of
        Inl e \<Rightarrow> ([Log Err ''Error processing container for DNS creation''], s)
      | Inr info \<Rightarrow>
          let labels = labels_of info;
              cid = take 12 (cd_Id info)
          in if map_of labels ''traefik.enable'' \<noteq> Some ''true'' then ([], s)
             else
               let hosts = extractTraefikHosts labels
               in if hosts = []
                  then ([Log Warn (''No valid hosts found in Traefik labels for container '' @ cid)], s)
                  else create_for_hosts cfg reg cid hosts s)"

section \<open>Deletion timers\<close>

text \<open>\<^verbatim>\<open>clearTimeout(t)\<close>: the timeout will not fire; clearing a handle that is not armed does nothing.\<close>

definition clearTimeout :: "nat \<Rightarrow> engine \<Rightarrow> engine" where
  "clearTimeout t s = s\<lparr>timers := filter (\<lambda>p. fst p \<noteq> t) (timers s)\<rparr>"

text \<open>\<^verbatim>\<open>setTimeout(callback, ...)\<close> with the deletion callback of a container: a fresh handle.\<close>

definition setTimeout :: "string \<Rightarrow> engine \<Rightarrow> nat \<times> engine" where
  "setTimeout cid s =
     (next_timer s, s\<lparr>timers := timers s @ [(next_timer s, cid)], next_timer := Suc (next_timer s)\<rparr>)"

definition scheduleRecordDeletion :: "config \<Rightarrow> string \<Rightarrow> engine \<Rightarrow> event list \<times> engine" where
  "scheduleRecordDeletion cfg cid s =
     (let s1 = (if jsmap_has (deletePendingRecords s) cid
                then (case jsmap_get (deletePendingRecords s) cid of
                        Some t \<Rightarrow> clearTimeout t s | None \<Rightarrow> s)
                else s)
      in case setTimeout cid s1 of
           (t, s2) \<Rightarrow>
             ([Log Info ''Scheduled DNS record deletion''],
              s2\<lparr>deletePendingRecords := jsmap_set cid t (deletePendingRecords s2)\<rparr>))"

text \<open>The callback of a deletion timer (lines 524 to 558), run when the timeout fires.\<close>

definition delete_one ::
  "registrar \<Rightarrow> string \<times> managed_record \<Rightarrow> engine \<Rightarrow> event list \<times> engine" where
  "delete_one reg kr s =
     (case kr of (key, r) \<Rightarrow>
        (case deleteRecord reg (domain r) (recordId r) s of
           (Inr u, evs, s') \<Rightarrow>
             (evs @ [Log Info ''DNS record deleted for stopped container''],
              s'\<lparr>managedRecords := jsmap_delete key (managedRecords s')\<rparr>)
         | (Inl e, evs, s') \<Rightarrow>
             (evs @ [Log Err ''Failed to delete DNS record for stopped container''], s')))"

fun delete_all ::
  "registrar \<Rightarrow> (string \<times> managed_record) list \<Rightarrow> engine \<Rightarrow> event list \<times> engine" where
  "delete_all reg [] s = ([], s)"
| "delete_all reg (kr # krs) s =
     (case delete_one reg kr s of
        (e1, s1) \<Rightarrow> (case delete_all reg krs s1 of (e2, s2) \<Rightarrow> (e1 @ e2, s2)))"

definition deletion_callback :: "registrar \<Rightarrow> string \<Rightarrow> engine \<Rightarrow> event list \<times> engine" where
  "deletion_callback reg cid s =
     (let recordsToDelete = filter (\<lambda>kr. containerId (snd kr) = cid) (managedRecords s)
      in case delete_all reg recordsToDelete s of
           (evs, s1) \<Rightarrow>
             (evs, s1\<lparr>deletePendingRecords := jsmap_delete cid (deletePendingRecords s1)\<rparr>))"

text \<open>An armed timeout fires: it leaves the event loop's timers and its callback runs.\<close>

definition fire_timer :: "registrar \<Rightarrow> nat \<Rightarrow> engine \<Rightarrow> event list \<times> engine" where
  "fire_timer reg t s =
     (case map_of (timers s) t of
        None \<Rightarrow> ([], s)
      | Some cid \<Rightarrow> deletion_callback reg cid (clearTimeout t s))"

section \<open>The tick\<close>

text \<open>
  In this section a tick is one state transformer: it runs from its start to its end with no
  other tick and no timer in between. The tick as a task that other steps can interleave
  with follows further down.
\<close>

text \<open>\<^verbatim>\<open>Array.from(managedRecords.keys()).some(key => key.startsWith(containerId))\<close>\<close>

definition hasRecords :: "engine \<Rightarrow> string \<Rightarrow> bool" where
  "hasRecords s cid = list_ex (\<lambda>key. starts_with key cid) (map fst (managedRecords s))"

text \<open>The body of the first loop of \<^verbatim>\<open>monitorContainers\<close>, with the set of running ids.\<close>

definition process_container ::
  "config \<Rightarrow> docker \<Rightarrow> registrar \<Rightarrow> container_info \<Rightarrow> string list \<times> engine
     \<Rightarrow> event list \<times> string list \<times> engine" where
  "process_container cfg dk reg ci rs =
     (case rs of (running, s) \<Rightarrow>
        if ci_State ci = ''running'' then
          (let cid = take 12 (ci_Id ci);
               running' = set_add running cid
           in case (if \<not> hasRecords s cid
                    then createDNSRecordsForContainer cfg dk reg (ci_Id ci) s else ([], s)) of
                (e1, s1) \<Rightarrow>
                  if jsmap_has (deletePendingRecords s1) cid then
                    (e1 @ [Log Info ''Cancelled scheduled deletion for restarted container''],
                     running',
                     (case jsmap_get (deletePendingRecords s1) cid of
                        Some t \<Rightarrow> clearTimeout t s1 | None \<Rightarrow> s1)
                       \<lparr>deletePendingRecords := jsmap_delete cid (deletePendingRecords s1)\<rparr>)
                  else (e1, running', s1))
        else ([], running, s))"

fun process_containers ::
  "config \<Rightarrow> docker \<Rightarrow> registrar \<Rightarrow> container_info list \<Rightarrow> string list \<times> engine
     \<Rightarrow> event list \<times> string list \<times> engine" where
  "process_containers cfg dk reg [] rs = ([], rs)"
| "process_containers cfg dk reg (ci # cis) rs =
     (case process_container cfg dk reg ci rs of
        (e1, rs1) \<Rightarrow>
          (case process_containers cfg dk reg cis rs1 of (e2, rs2) \<Rightarrow> (e1 @ e2, rs2)))"

text \<open>
  The second loop, over the entries of \<^verbatim>\<open>managedRecords\<close> (which the loop does not change).
\<close>

fun schedule_stopped ::
  "config \<Rightarrow> string list \<Rightarrow> (string \<times> managed_record) list \<Rightarrow> engine \<Rightarrow> event list \<times> engine" where
  "schedule_stopped cfg running [] s = ([], s)"
| "schedule_stopped cfg running (kr # krs) s =
     (if containerId (snd kr) \<notin> set running
         \<and> \<not> jsmap_has (deletePendingRecords s) (containerId (snd kr))
      then (case scheduleRecordDeletion cfg (containerId (snd kr)) s of
              (e1, s1) \<Rightarrow>
                (case schedule_stopped cfg running krs s1 of (e2, s2) \<Rightarrow> (e1 @ e2, s2)))
      else schedule_stopped cfg running krs s)"

text \<open>
  The \<^verbatim>\<open>try\<close> block of \<^verbatim>\<open>monitorContainers\<close>: only the listing can throw, before anything is
  changed.
\<close>

definition monitorContainers_try ::
  "config \<Rightarrow> docker \<Rightarrow> registrar \<Rightarrow> engine \<Rightarrow> string + (event list \<times> engine)" where
  "monitorContainers_try cfg dk reg s =
     (case listContainers dk of
        Inl e \<Rightarrow> Inl e
      | Inr containers \<Rightarrow>
          (case process_containers cfg dk reg containers ([], s) of
             (e1, running, s1) \<Rightarrow>
               (case schedule_stopped cfg running (managedRecords s1) s1 of
                  (e2, s2) \<Rightarrow> Inr (e1 @ e2, s2))))"

text \<open>
  \<^verbatim>\<open>monitorContainers\<close>: the \<^verbatim>\<open>catch\<close> logs the error. The first component is how the promise
  settles: \<open>None\<close> when it is fulfilled, \<open>Some\<close> of the message when it is rejected.
\<close>

definition monitorContainers ::
  "config \<Rightarrow> docker \<Rightarrow> registrar \<Rightarrow> engine \<Rightarrow> string option \<times> event list \<times> engine" where
  "monitorContainers cfg dk reg s =
     (case monitorContainers_try cfg dk reg s of
        Inl e \<Rightarrow> (None, [Log Err ''Error monitoring containers''], s)
      | Inr (evs, s') \<Rightarrow> (None, evs, s'))"

section \<open>Route handlers\<close>

text \<open>
  A handler is a function of everything the process can reach: the configuration, the
  runtime, the registrar, the engine state and the clock (the ISO time stamp of the answer).
\<close>

datatype sync_body = SyncCompleted string string | SyncError string

text \<open>\<^verbatim>\<open>POST /api/sync\<close>: status, body, events and the state afterwards.\<close>

definition sync_handler ::
  "config \<Rightarrow> docker \<Rightarrow> registrar \<Rightarrow> string \<Rightarrow> engine \<Rightarrow> (nat \<times> sync_body) \<times> event list \<times> engine" where
  "sync_handler cfg dk reg now s =
     (case monitorContainers cfg dk reg s of
        (None, evs, s') \<Rightarrow>
          ((200, SyncCompleted ''Sync completed'' now), Log Info ''Manual sync triggered'' # evs, s')
      | (Some e, evs, s') \<Rightarrow>
          ((500, SyncError e),
           Log Info ''Manual sync triggered'' # evs @ [Log Err ''Manual sync failed''], s'))"

record health_config =
  h_pollInterval :: int
  h_deleteDelay :: int
  h_hasCredentials :: bool

record health_body =
  h_status :: string
  h_timestamp :: string
  h_config :: health_config

text \<open>\<^verbatim>\<open>GET /api/health\<close>: \<^verbatim>\<open>res.json\<close> answers with status 200.\<close>

definition health_handler ::
  "config \<Rightarrow> docker \<Rightarrow> registrar \<Rightarrow> string \<Rightarrow> engine \<Rightarrow> nat \<times> health_body" where
  "health_handler cfg dk reg now s =
     (200,
      \<lparr>h_status = ''healthy'', h_timestamp = now,
       h_config = \<lparr>h_pollInterval = pollInterval cfg, h_deleteDelay = deleteDelay cfg,
                   h_hasCredentials = truthy (js_and (accountName cfg) (apiKey cfg))\<rparr>\<rparr>)"

section \<open>Derived descriptions used in the statements\<close>

text \<open>
  The splitting of a hostname in the words of the specification: the domain is the last two
  dot-separated labels joined by a dot, the subdomain is the remaining leading labels joined
  by a dot.
\<close>

definition spec_domain :: "string \<Rightarrow> string" where
  "spec_domain host = (let ls = split_dot host in join_dot (drop (length ls - 2) ls))"

definition spec_subdomain :: "string \<Rightarrow> string" where
  "spec_subdomain host = (let ls = split_dot host in join_dot (take (length ls - 2) ls))"

text \<open>The registrar requests that processing one hostname, and one container, gives rise to.\<close>

definition host_requests :: "config \<Rightarrow> string \<Rightarrow> request list" where
  "host_requests cfg host =
     (if length (split_dot host) < 3 \<or> spec_subdomain host = [] then []
      else [ReqCreate (spec_domain host) (spec_subdomain host) (js_or (targetDomain cfg) host) 3600])"

definition container_requests :: "config \<Rightarrow> docker \<Rightarrow> string \<Rightarrow> request list" where
  "container_requests cfg dk full_id =
     (case inspect dk full_id of
        Inl e \<Rightarrow> []
      | Inr info \<Rightarrow>
          if map_of (labels_of info) ''traefik.enable'' = Some ''true''
          then concat (map (host_requests cfg) (extractTraefikHosts (labels_of info)))
          else [])"

section \<open>Concrete configurations, runtimes and registrars\<close>

definition cfg0 :: config where
  "cfg0 = \<lparr>accountName = ''S123456'', apiKey = ''key'', deleteDelay = 300, pollInterval = 30,
           port = 3000, targetDomain = ''srv.example.net''\<rparr>"

text \<open>A registrar that accepts every request, and one that rejects every request.\<close>

definition reg_accept :: registrar where
  "reg_accept = \<lparr>post_record = (\<lambda>n d nm t ttl. Inr (100 + n)), delete_record = (\<lambda>n d i. Inr ())\<rparr>"

definition reg_reject :: registrar where
  "reg_reject = \<lparr>post_record = (\<lambda>n d nm t ttl. Inl ''503''), delete_record = (\<lambda>n d i. Inl ''503'')\<rparr>"

text \<open>
  One container with the given state, the enablement label and one router rule; the
  inspection returns the id it was asked for.
\<close>

definition one_container :: "string \<Rightarrow> string \<Rightarrow> docker" where
  "one_container st rule =
     \<lparr>listContainers = Inr [\<lparr>ci_Id = ''0123456789abcdef'', ci_State = st\<rparr>],
      inspect = (\<lambda>i. Inr \<lparr>cd_Id = i,
                            cd_Labels = Some [(''traefik.enable'', ''true''),
                                              (''traefik.http.routers.app.rule'', rule)]\<rparr>)\<rparr>"

text \<open>A container whose labels declare a router rule but not the enablement label.\<close>

definition details_not_enabled :: container_details where
  "details_not_enabled =
     \<lparr>cd_Id = ''0123456789abcdef'',
      cd_Labels = Some [(''traefik.http.routers.app.rule'', ''Host(a.b.com)'')]\<rparr>"

section \<open>Outcomes of a fired deletion\<close>

text \<open>
  The answers of the registrar to the deletion requests for a list of records, the first
  request being request number \<open>n\<close>; the request event of a record with its answer; and the
  keys of the records whose deletion was answered with success.
\<close>


fun delete_outcomes :: "registrar \<Rightarrow> nat \<Rightarrow> (string \<times> managed_record) list \<Rightarrow> (string + unit) list" where
  "delete_outcomes reg n [] = []"
| "delete_outcomes reg n (kr # krs) =
     delete_record reg n (domain (snd kr)) (recordId (snd kr)) # delete_outcomes reg (Suc n) krs"

definition delete_event :: "(string \<times> managed_record) \<times> (string + unit) \<Rightarrow> event" where
  "delete_event p = (case p of (kr, out) \<Rightarrow> DeleteRecord (domain (snd kr)) (recordId (snd kr)) out)"

definition ok_keys :: "registrar \<Rightarrow> nat \<Rightarrow> (string \<times> managed_record) list \<Rightarrow> string set" where
  "ok_keys reg n krs = {fst kr | kr. (kr, Inr ()) \<in> set (zip krs (delete_outcomes reg n krs))}"

text \<open>
  A registrar that deletes record 100 only, and a state with a pending deletion for a
  container that owns two records.
\<close>

definition reg_flaky :: registrar where
  "reg_flaky = \<lparr>post_record = (\<lambda>n d nm t ttl. Inr (100 + n)),
                 delete_record = (\<lambda>n d i. if i = 100 then Inr () else Inl ''404'')\<rparr>"

definition rec_of :: "record_id \<Rightarrow> string \<Rightarrow> string \<Rightarrow> string \<Rightarrow> string \<times> managed_record" where
  "rec_of rid cid sub dmn =
     (cid @ ''-'' @ sub @ ''.'' @ dmn,
      \<lparr>recordId = rid, hostname = sub @ ''.'' @ dmn, domain = dmn, subdomain = sub,
       containerId = cid\<rparr>)"

definition s_pending :: engine where
  "s_pending =
     \<lparr>managedRecords = [rec_of 100 ''aaaaaaaaaaaa'' ''app'' ''example.com'',
                         rec_of 101 ''aaaaaaaaaaaa'' ''api'' ''example.com'',
                         rec_of 102 ''bbbbbbbbbbbb'' ''web'' ''example.org''],
      deletePendingRecords = [(''aaaaaaaaaaaa'', 0)],
      timers = [(0, ''aaaaaaaaaaaa'')], next_timer = 1, requests = 3\<rparr>"


section \<open>The invariant of steps that run to completion\<close>

text \<open>
  The invariant that whole ticks, stretches of ticks and whole deletion callbacks preserve (a
  callback that other steps overtake does not preserve it): the keys of each table are
  distinct, timer handles are distinct and below the next unused handle, every armed timer is
  the one recorded for its container in the pending-deletion table, and every entry of that
  table has its armed timer.
\<close>

definition timers_inv :: "(string \<times> nat) list \<Rightarrow> (nat \<times> string) list \<Rightarrow> nat \<Rightarrow> bool" where
  "timers_inv pend tms nxt =
     (distinct (map fst pend) \<and> distinct (map fst tms)
      \<and> (\<forall>p \<in> set tms. fst p < nxt \<and> map_of pend (snd p) = Some (fst p))
      \<and> (\<forall>q \<in> set pend. (snd q, fst q) \<in> set tms))"

definition engine_inv :: "engine \<Rightarrow> bool" where
  "engine_inv s =
     (distinct (map fst (managedRecords s))
      \<and> timers_inv (deletePendingRecords s) (timers s) (next_timer s))"

text \<open>
  The states after a first tick with one running container, and after a second tick with that
  container stopped.
\<close>

definition s_created :: engine where
  "s_created =
     snd (snd (monitorContainers cfg0 (one_container ''running'' ''Host(app.example.com)'')
                 reg_accept init))"

definition s_stopped :: engine where
  "s_stopped =
     snd (snd (monitorContainers cfg0 (one_container ''exited'' ''Host(app.example.com)'')
                 reg_accept s_created))"

section \<open>Settled containers\<close>

text \<open>The ids in the set of running containers that the first loop of a tick builds.\<close>

definition running_ids :: "container_info list \<Rightarrow> string list" where
  "running_ids cis = map (\<lambda>ci. take 12 (ci_Id ci)) (filter (\<lambda>ci. ci_State ci = ''running'') cis)"

text \<open>
  A listed container is settled in a state when, if it is running, it is already represented
  in the managed-record table (as the tick tests it) or processing it would send no
  creation request: its inspection fails, it is not enabled, or it declares no hostname with
  a subdomain.
\<close>

definition settled :: "config \<Rightarrow> docker \<Rightarrow> engine \<Rightarrow> container_info \<Rightarrow> bool" where
  "settled cfg dk s ci =
     (ci_State ci = ''running'' \<longrightarrow>
        hasRecords s (take 12 (ci_Id ci)) \<or> container_requests cfg dk (ci_Id ci) = [])"

definition all_running_settled :: "config \<Rightarrow> docker \<Rightarrow> engine \<Rightarrow> bool" where
  "all_running_settled cfg dk s =
     (case listContainers dk of Inl e \<Rightarrow> True | Inr cis \<Rightarrow> list_all (settled cfg dk s) cis)"

text \<open>
  Two containers, the first running, the second in the given state; the states after a tick
  with both running, and after a further tick with the second one stopped; and the state
  after a first tick in which the registrar rejected the creation request.
\<close>

definition two_containers :: "string \<Rightarrow> docker" where
  "two_containers st =
     \<lparr>listContainers = Inr [\<lparr>ci_Id = ''0123456789abcdef'', ci_State = ''running''\<rparr>,
                            \<lparr>ci_Id = ''fedcba9876543210'', ci_State = st\<rparr>],
      inspect = (\<lambda>i. Inr \<lparr>cd_Id = i,
                            cd_Labels = Some [(''traefik.enable'', ''true''),
                                              (''traefik.http.routers.web.rule'',
                                               if i = ''0123456789abcdef''
                                               then ''Host(app.example.com)''
                                               else ''Host(api.example.com)'')]\<rparr>)\<rparr>"

definition s_two :: engine where
  "s_two = snd (snd (monitorContainers cfg0 (two_containers ''running'') reg_accept init))"

definition s_two_stopped :: engine where
  "s_two_stopped = snd (snd (monitorContainers cfg0 (two_containers ''exited'') reg_accept s_two))"

definition s_create_failed :: engine where
  "s_create_failed =
     snd (snd (monitorContainers cfg0 (one_container ''running'' ''Host(app.example.com)'')
                 reg_reject init))"

text \<open>
  A creation request that the registrar rejected; and a runtime whose inspection of a
  container reports the id it was asked for (up to the twelve characters the engine keeps).
\<close>

fun failed_create :: "event \<Rightarrow> bool" where
  "failed_create (CreateCNAME d n t ttl (Inl e)) = True"
| "failed_create ev = False"

definition inspect_consistent :: "docker \<Rightarrow> bool" where
  "inspect_consistent dk =
     (\<forall>full_id info. inspect dk full_id = Inr info \<longrightarrow> take 12 (cd_Id info) = take 12 full_id)"

section \<open>A tick as a task that is suspended at its awaits\<close>

text \<open>
  \<open>monitorContainers\<close> is an async function: it is suspended at every \<^verbatim>\<open>await\<close> of a network
  call (the listing, the inspection of a container, the creation request) and resumed when
  the answer arrives; between two such points it runs without interruption. A tick in
  progress is the point where it is suspended together with its local variables:
  \<^item> \<open>AwaitListing\<close>: at \<^verbatim>\<open>await docker.listContainers(...)\<close>;
  \<^item> \<open>AwaitInspect ci cis running\<close>: at \<^verbatim>\<open>await container.inspect()\<close> for container \<open>ci\<close>, with the
    containers still to visit and the running ids collected so far;
  \<^item> \<open>AwaitCreate cid host dmn sub res hs ci cis running\<close>: at \<^verbatim>\<open>await axios.post(...)\<close> for
    \<open>host\<close>, with the answer \<open>res\<close> that is under way and the hosts still to visit;
  \<^item> \<open>TickDone\<close>: the function has returned.
  An \<^verbatim>\<open>await\<close> of a promise that is already settled (the call of \<open>scheduleRecordDeletion\<close>)
  gives no other tick or timer the chance to run and is not a suspension point here.
\<close>

datatype tick_task =
    AwaitListing
  | AwaitInspect container_info "container_info list" "string list"
  | AwaitCreate string string string string "string + record_id" "string list"
      container_info "container_info list" "string list"
  | TickDone

text \<open>Lines 583 to 588: cancel the pending deletion of a running container.\<close>

definition cancel_pending :: "string \<Rightarrow> engine \<Rightarrow> event list \<times> engine" where
  "cancel_pending cid s =
     (if jsmap_has (deletePendingRecords s) cid then
        ([Log Info ''Cancelled scheduled deletion for restarted container''],
         (case jsmap_get (deletePendingRecords s) cid of
            Some t \<Rightarrow> clearTimeout t s | None \<Rightarrow> s)
           \<lparr>deletePendingRecords := jsmap_delete cid (deletePendingRecords s)\<rparr>)
      else ([], s))"

text \<open>
  The first loop from a given container on, up to the next suspension; after the last
  container the second loop runs and the tick is done.
\<close>

fun scan :: "config \<Rightarrow> container_info list \<Rightarrow> string list \<Rightarrow> engine
               \<Rightarrow> event list \<times> tick_task \<times> engine" where
  "scan cfg [] running s =
     (case schedule_stopped cfg running (managedRecords s) s of (e, s') \<Rightarrow> (e, TickDone, s'))"
| "scan cfg (ci # cis) running s =
     (if ci_State ci = ''running'' then
        (let cid = take 12 (ci_Id ci);
             running' = set_add running cid
         in if \<not> hasRecords s cid then ([], AwaitInspect ci cis running', s)
            else (case cancel_pending cid s of
                    (e1, s1) \<Rightarrow>
                      (case scan cfg cis running' s1 of (e2, t, s2) \<Rightarrow> (e1 @ e2, t, s2))))
      else scan cfg cis running s)"

text \<open>What follows \<^verbatim>\<open>await createDNSRecordsForContainer(container)\<close> for container \<open>ci\<close>.\<close>

definition finish_container ::
  "config \<Rightarrow> container_info \<Rightarrow> container_info list \<Rightarrow> string list \<Rightarrow> engine
     \<Rightarrow> event list \<times> tick_task \<times> engine" where
  "finish_container cfg ci cis running s =
     (case cancel_pending (take 12 (ci_Id ci)) s of
        (e1, s1) \<Rightarrow> (case scan cfg cis running s1 of (e2, t, s2) \<Rightarrow> (e1 @ e2, t, s2)))"

text \<open>
  The loop over the hosts from a given host on, up to the next creation request: the
  request is sent (and counted), and the tick is suspended until its answer arrives.
\<close>

fun hosts_loop ::
  "config \<Rightarrow> registrar \<Rightarrow> string \<Rightarrow> string list \<Rightarrow> container_info \<Rightarrow> container_info list
     \<Rightarrow> string list \<Rightarrow> engine \<Rightarrow> event list \<times> tick_task \<times> engine" where
  "hosts_loop cfg reg cid [] ci cis running s = finish_container cfg ci cis running s"
| "hosts_loop cfg reg cid (host # hs) ci cis running s =
     (let parts = split_dot host in
      if length parts < 2 then
        (case hosts_loop cfg reg cid hs ci cis running s of
           (e, t, s') \<Rightarrow> (Log Warn (''Invalid hostname format: '' @ host) # e, t, s'))
      else
        let sub = join_dot (js_slice 0 (- 2) parts);
            dmn = join_dot (js_slice (- 2) (int (length parts)) parts)
        in if \<not> truthy sub then
             (case hosts_loop cfg reg cid hs ci cis running s of
                (e, t, s') \<Rightarrow> (Log Warn (''No subdomain found for host: '' @ host) # e, t, s'))
           else
             (let target = js_or (targetDomain cfg) host;
                  res = post_record reg (requests s) dmn sub target 3600
              in ([CreateCNAME dmn sub target 3600 res],
                  AwaitCreate cid host dmn sub res hs ci cis running,
                  s\<lparr>requests := Suc (requests s)\<rparr>)))"

text \<open>The answer a tick is waiting for arrives, and the tick runs to its next suspension.\<close>

definition resume ::
  "config \<Rightarrow> docker \<Rightarrow> registrar \<Rightarrow> tick_task \<Rightarrow> engine \<Rightarrow> event list \<times> tick_task \<times> engine" where
  "resume cfg dk reg task s =
     (case task of
        AwaitListing \<Rightarrow>
          (case listContainers dk of
             Inl e \<Rightarrow> ([Log Err ''Error monitoring containers''], TickDone, s)
           | Inr containers \<Rightarrow> scan cfg containers [] s)
      | AwaitInspect ci cis running \<Rightarrow>
          (case inspect dk (ci_Id ci) of
             Inl e \<Rightarrow>
               (case finish_container cfg ci cis running s of
                  (e2, t, s2) \<Rightarrow>
                    (Log Err ''Error processing container for DNS creation'' # e2, t, s2))
           | Inr info \<Rightarrow>
               let labels = labels_of info;
                   cid = take 12 (cd_Id info)
               in if map_of labels ''traefik.enable'' \<noteq> Some ''true''
                  then finish_container cfg ci cis running s
                  else
                    let hosts = extractTraefikHosts labels
                    in if hosts = [] then
                         (case finish_container cfg ci cis running s of
                            (e2, t, s2) \<Rightarrow>
                              (Log Warn (''No valid hosts found in Traefik labels for container ''
                                           @ cid) # e2, t, s2))
                       else hosts_loop cfg reg cid hosts ci cis running s)
      | AwaitCreate cid host dmn sub res hs ci cis running \<Rightarrow>
          (case res of
             Inr rid \<Rightarrow>
               (case hosts_loop cfg reg cid hs ci cis running
                       (s\<lparr>managedRecords :=
                            jsmap_set (cid @ ''-'' @ host)
                              \<lparr>recordId = rid, hostname = host, domain = dmn, subdomain = sub,
                               containerId = cid\<rparr>
                              (managedRecords s)\<rparr>) of
                  (e2, t, s2) \<Rightarrow>
                    ([Log Info (''Created CNAME record: '' @ sub @ ''.'' @ dmn @ '' -> ''
                                  @ js_or (targetDomain cfg) host),
                      Log Info ''DNS record created for container''] @ e2, t, s2))
           | Inl e \<Rightarrow>
               (case hosts_loop cfg reg cid hs ci cis running s of
                  (e2, t, s2) \<Rightarrow>
                    ([Log Err (''Failed to create CNAME record: '' @ sub @ ''.'' @ dmn),
                      Log Err (''Failed to create DNS record for '' @ host)] @ e2, t, s2)))
      | TickDone \<Rightarrow> ([], TickDone, s))"

text \<open>
  Several ticks in progress on the same tables: the schedule names, step by step, the tick
  whose answer arrives next.
\<close>

fun interleave ::
  "config \<Rightarrow> docker \<Rightarrow> registrar \<Rightarrow> nat list \<Rightarrow> tick_task list \<Rightarrow> engine
     \<Rightarrow> event list \<times> tick_task list \<times> engine" where
  "interleave cfg dk reg [] ts s = ([], ts, s)"
| "interleave cfg dk reg (i # is) ts s =
     (if i < length ts then
        (case resume cfg dk reg (ts ! i) s of
           (e1, t, s1) \<Rightarrow>
             (case interleave cfg dk reg is (ts[i := t]) s1 of
                (e2, ts', s2) \<Rightarrow> (e1 @ e2, ts', s2)))
      else interleave cfg dk reg is ts s)"

text \<open>One tick resumed \<open>n\<close> times with nothing in between.\<close>

fun run_alone ::
  "config \<Rightarrow> docker \<Rightarrow> registrar \<Rightarrow> nat \<Rightarrow> tick_task \<Rightarrow> engine
     \<Rightarrow> event list \<times> tick_task \<times> engine" where
  "run_alone cfg dk reg 0 t s = ([], t, s)"
| "run_alone cfg dk reg (Suc n) t s =
     (case resume cfg dk reg t s of
        (e1, t1, s1) \<Rightarrow>
          (case run_alone cfg dk reg n t1 s1 of (e2, t2, s2) \<Rightarrow> (e1 @ e2, t2, s2)))"

definition completes ::
  "config \<Rightarrow> docker \<Rightarrow> registrar \<Rightarrow> tick_task \<Rightarrow> engine \<Rightarrow> event list \<times> engine \<Rightarrow> bool" where
  "completes cfg dk reg t s r = (\<exists>n. run_alone cfg dk reg n t s = (fst r, TickDone, snd r))"

text \<open>
  The atomic tick from a given container on, and from the end of
  \<open>createDNSRecordsForContainer\<close> for a container on.
\<close>

definition rest_of_tick ::
  "config \<Rightarrow> docker \<Rightarrow> registrar \<Rightarrow> container_info list \<Rightarrow> string list \<Rightarrow> engine
     \<Rightarrow> event list \<times> engine" where
  "rest_of_tick cfg dk reg cis running s =
     (case process_containers cfg dk reg cis (running, s) of
        (e1, running', s1) \<Rightarrow>
          (case schedule_stopped cfg running' (managedRecords s1) s1 of
             (e2, s2) \<Rightarrow> (e1 @ e2, s2)))"

definition after_create ::
  "config \<Rightarrow> docker \<Rightarrow> registrar \<Rightarrow> container_info \<Rightarrow> container_info list \<Rightarrow> string list
     \<Rightarrow> engine \<Rightarrow> event list \<times> engine" where
  "after_create cfg dk reg ci cis running s =
     (case cancel_pending (take 12 (ci_Id ci)) s of
        (ec, sc) \<Rightarrow> (case rest_of_tick cfg dk reg cis running sc of (er, sr) \<Rightarrow> (ec @ er, sr)))"

definition scan_ok :: "config \<Rightarrow> docker \<Rightarrow> registrar \<Rightarrow> container_info list \<Rightarrow> bool" where
  "scan_ok cfg dk reg cis =
     (\<forall>running s e1 t s1. scan cfg cis running s = (e1, t, s1) \<longrightarrow>
        (\<exists>e2. completes cfg dk reg t s1 (e2, snd (rest_of_tick cfg dk reg cis running s))
               \<and> e1 @ e2 = fst (rest_of_tick cfg dk reg cis running s)))"

text \<open>
  The callback of a deletion timer (lines 524 to 558) is an async function too: it collects
  the records of its container when it starts and is then suspended at
  \<^verbatim>\<open>await simplyAPI.deleteRecord(...)\<close> for each of them in turn. A callback in progress is
  \<open>AwaitDelete cid kr res krs\<close>: waiting for the answer \<open>res\<close> to the deletion request for the
  entry \<open>kr\<close>, with the entries \<open>krs\<close> still to delete; \<open>DeleteDone\<close> when it has returned.
\<close>

datatype delete_task =
    AwaitDelete string "string \<times> managed_record" "string + unit" "(string \<times> managed_record) list"
  | DeleteDone

text \<open>
  The loop over the collected records from a given record on, up to the next deletion
  request; after the last record the entry of the container is removed from the
  pending-deletion table (line 553), whatever timer it refers to.
\<close>

fun delete_loop ::
  "registrar \<Rightarrow> string \<Rightarrow> (string \<times> managed_record) list \<Rightarrow> engine
     \<Rightarrow> event list \<times> delete_task \<times> engine" where
  "delete_loop reg cid [] s =
     ([], DeleteDone, s\<lparr>deletePendingRecords := jsmap_delete cid (deletePendingRecords s)\<rparr>)"
| "delete_loop reg cid (kr # krs) s =
     (let res = delete_record reg (requests s) (domain (snd kr)) (recordId (snd kr))
      in ([DeleteRecord (domain (snd kr)) (recordId (snd kr)) res],
          AwaitDelete cid kr res krs,
          s\<lparr>requests := Suc (requests s)\<rparr>))"

text \<open>An armed timeout fires: it leaves the armed timers and its callback starts.\<close>

definition fire_start :: "registrar \<Rightarrow> nat \<Rightarrow> engine \<Rightarrow> event list \<times> delete_task \<times> engine" where
  "fire_start reg t s =
     (case map_of (timers s) t of
        None \<Rightarrow> ([], DeleteDone, s)
      | Some cid \<Rightarrow>
          (let s0 = clearTimeout t s;
               recordsToDelete = filter (\<lambda>kr. containerId (snd kr) = cid) (managedRecords s0)
           in delete_loop reg cid recordsToDelete s0))"

text \<open>The answer to a deletion request arrives, and the callback runs to its next suspension.\<close>

definition resume_delete ::
  "registrar \<Rightarrow> delete_task \<Rightarrow> engine \<Rightarrow> event list \<times> delete_task \<times> engine" where
  "resume_delete reg task s =
     (case task of
        AwaitDelete cid kr res krs \<Rightarrow>
          (case res of
             Inr u \<Rightarrow>
               (case delete_loop reg cid krs
                       (s\<lparr>managedRecords := jsmap_delete (fst kr) (managedRecords s)\<rparr>) of
                  (e2, t, s2) \<Rightarrow>
                    ([Log Info ''Deleted DNS record'',
                      Log Info ''DNS record deleted for stopped container''] @ e2, t, s2))
           | Inl e \<Rightarrow>
               (case delete_loop reg cid krs s of
                  (e2, t, s2) \<Rightarrow>
                    ([Log Err ''Failed to delete DNS record'',
                      Log Err ''Failed to delete DNS record for stopped container''] @ e2, t, s2)))
      | DeleteDone \<Rightarrow> ([], DeleteDone, s))"

text \<open>One callback resumed \<open>n\<close> times with nothing in between.\<close>

fun run_delete ::
  "registrar \<Rightarrow> nat \<Rightarrow> delete_task \<Rightarrow> engine \<Rightarrow> event list \<times> delete_task \<times> engine" where
  "run_delete reg 0 t s = ([], t, s)"
| "run_delete reg (Suc n) t s =
     (case resume_delete reg t s of
        (e1, t1, s1) \<Rightarrow> (case run_delete reg n t1 s1 of (e2, t2, s2) \<Rightarrow> (e1 @ e2, t2, s2)))"

section \<open>Reachable states\<close>

text \<open>
  The states the engine can reach under one configuration. A step is one stretch of code
  that runs without interruption: a tick in progress is resumed and runs to its next
  suspension; an armed deletion timer fires and its callback runs to its first suspension; a
  callback in progress is resumed and runs to its next suspension. The steps of different
  ticks and callbacks may follow each other in any order, and the runtime and the registrar
  may answer differently at every step. A call of \<open>scheduleRecordDeletion\<close> for any container
  is a step as well (the source calls it only from the tick). Whole ticks and whole
  callbacks are sequences of such steps. Any task may be resumed in any state, also one that
  no tick or callback has left behind, so the relation holds of every state of an execution
  and of more: what is proved of all reachable states holds of the program.
\<close>

inductive reachable :: "config \<Rightarrow> engine \<Rightarrow> bool" for cfg :: config where
  start: "reachable cfg init"
| resumed: "reachable cfg s \<Longrightarrow> reachable cfg (snd (snd (resume cfg dk reg task s)))"
| fired: "reachable cfg s \<Longrightarrow> reachable cfg (snd (snd (fire_start reg t s)))"
| delete_resumed: "reachable cfg s \<Longrightarrow> reachable cfg (snd (snd (resume_delete reg dtask s)))"
| arm: "reachable cfg s \<Longrightarrow> reachable cfg (snd (scheduleRecordDeletion cfg cid s))"

text \<open>
  What holds in every reachable state: the keys of both tables are distinct, and timer handles
  are distinct and below the next unused handle.
\<close>

definition tables_inv :: "engine \<Rightarrow> bool" where
  "tables_inv s =
     (distinct (map fst (managedRecords s)) \<and> distinct (map fst (deletePendingRecords s))
      \<and> distinct (map fst (timers s)) \<and> (\<forall>p \<in> set (timers s). fst p < next_timer s))"

section \<open>A deletion callback overtaken by two ticks\<close>

text \<open>
  From the state with one stopped container, its record and its armed timer: the timer fires
  and the callback waits for the registrar, which will reject the deletion; a tick finds the
  container running again; a tick finds it stopped again; the callback is resumed and ends;
  the next tick runs. The callback resumed is the one that the firing left suspended, and
  each tick runs from its start to its end.
\<close>

definition race_fired :: "delete_task \<times> engine" where
  "race_fired = snd (fire_start reg_reject 0 s_stopped)"

definition race_restarted :: engine where
  "race_restarted =
     snd (snd (monitorContainers cfg0 (one_container ''running'' ''Host(app.example.com)'')
                 reg_reject (snd race_fired)))"

definition race_stopped_again :: engine where
  "race_stopped_again =
     snd (snd (monitorContainers cfg0 (one_container ''exited'' ''Host(app.example.com)'')
                 reg_reject race_restarted))"

definition race_callback_ended :: "delete_task \<times> engine" where
  "race_callback_ended = snd (resume_delete reg_reject (fst race_fired) race_stopped_again)"

definition race_next_tick :: engine where
  "race_next_tick =
     snd (snd (monitorContainers cfg0 (one_container ''exited'' ''Host(app.example.com)'')
                 reg_reject (snd race_callback_ended)))"

section \<open>Properties of the label parser\<close>

lemma extractTraefikHosts_double_quoted:
  \<open>extractTraefikHosts [(''traefik.enable'', ''true''),
      (''traefik.http.routers.app.rule'', ''Host("a.b.com")'')] = [''a.b.com'']\<close>
  by code_simp

lemma extractTraefikHosts_bare:
  "extractTraefikHosts [(''traefik.enable'', ''true''),
      (''traefik.http.routers.app.rule'', ''Host(a.b.com)'')] = [''a.b.com'']"
  by code_simp

text \<open>
  Claim C3 (quoting styles). The claim asks for exactly \<open>[''a.b.com'']\<close> in each of the three
  forms. The double-quoted and the bare form give it (the two lemmas above). For the
  backtick form the second pattern, meant for rules without backticks, matches as well, and
  its quote stripping leaves backticks in place: the parser returns two tokens, the hostname
  and the hostname still wrapped in backticks.
\<close>

theorem extractTraefikHosts_backtick_two_tokens:
  "extractTraefikHosts [(''traefik.enable'', ''true''),
      (''traefik.http.routers.app.rule'', ''Host(`a.b.com`)'')] = [''a.b.com'', ''`a.b.com`'']"
  by code_simp


section \<open>The enablement gate\<close>

lemma enable_key_is_no_rule:
  "\<not> str_includes ''traefik.enable'' ''traefik.http.routers''"
  by code_simp

lemma extractTraefikHosts_without_enable:
  "extractTraefikHosts (filter (\<lambda>kv. fst kv \<noteq> ''traefik.enable'') labels)
     = extractTraefikHosts labels"
proof -
  have "concat (map hosts_of_label (filter (\<lambda>kv. fst kv \<noteq> ''traefik.enable'') labels))
          = concat (map hosts_of_label labels)"
  proof (induction labels)
    case Nil
    then show ?case by simp
  next
    case (Cons kv labels)
    then show ?case
      using enable_key_is_no_rule by (cases kv) (auto simp add: hosts_of_label_def)
  qed
  then show ?thesis by (simp add: extractTraefikHosts_def)
qed

text \<open>
  Claim C4, as stated, on the parser: a label map without the enablement label for which
  \<open>extractTraefikHosts\<close> nevertheless returns a hostname. The parser does not look at the
  enablement label: removing it from any label map leaves the result as it was (the lemma
  above).
\<close>

theorem extractTraefikHosts_ignores_enablement:
  "map_of [(''traefik.http.routers.app.rule'', ''Host(a.b.com)'')] ''traefik.enable'' = None
   \<and> extractTraefikHosts [(''traefik.http.routers.app.rule'', ''Host(a.b.com)'')] = [''a.b.com'']"
  by code_simp

text \<open>
  Claim C4, amended: the gate is applied by the caller of the parser. For a container whose
  label map lacks the enablement label, or has it with any value other than exactly
  \<open>''true''\<close>, \<open>createDNSRecordsForContainer\<close> does nothing at all: no request to the
  registrar, no log line, and the state is unchanged.
\<close>

theorem enablement_gate:
  "inspect dk full_id = Inr info \<Longrightarrow>
   map_of (labels_of info) ''traefik.enable'' \<noteq> Some ''true'' \<Longrightarrow>
   createDNSRecordsForContainer cfg dk reg full_id s = ([], s)"
  by (simp add: createDNSRecordsForContainer_def)

theorem enablement_gate_witness:
  "map_of (labels_of details_not_enabled) ''traefik.enable'' \<noteq> Some ''true''
   \<and> createDNSRecordsForContainer cfg0 \<lparr>listContainers = Inr [], inspect = (\<lambda>i. Inr details_not_enabled)\<rparr>
        reg_accept ''0123456789abcdef'' init = ([], init)"
proof -
  have l: "map_of (labels_of details_not_enabled) ''traefik.enable'' \<noteq> Some ''true''"
    by (simp add: labels_of_def details_not_enabled_def)
  have i: "inspect \<lparr>listContainers = Inr [], inspect = (\<lambda>i. Inr details_not_enabled)\<rparr>
             ''0123456789abcdef'' = Inr details_not_enabled"
    by simp
  show ?thesis using enablement_gate [OF i l, of cfg0 reg_accept init] l by simp
qed

section \<open>Requests issued by the engine\<close>

lemma sync_handler_never_500:
  "fst (sync_handler cfg dk reg now s) = (200, SyncCompleted ''Sync completed'' now)"
  by (auto simp add: sync_handler_def monitorContainers_def split: prod.splits option.splits sum.splits)

lemma nat_int_minus2: "nat (int n - 2) = n - 2"
  by arith

lemma js_slice_leading: "js_slice 0 (- 2) xs = take (length xs - 2) xs"
  by (auto simp add: js_slice_def js_rel_index_def Let_def max_def nat_diff_distrib')

lemma js_slice_last_two: "js_slice (- 2) (int (length xs)) xs = drop (length xs - 2) xs"
  by (auto simp add: js_slice_def js_rel_index_def Let_def max_def nat_int_minus2)

lemma requests_of_simps [simp]:
  "requests_of [] = []"
  "requests_of (Log l m # evs) = requests_of evs"
  "requests_of (CreateCNAME d n t ttl r # evs) = ReqCreate d n t ttl # requests_of evs"
  "requests_of (DeleteRecord d i r' # evs) = ReqDelete d i # requests_of evs"
  "requests_of (xs @ ys) = requests_of xs @ requests_of ys"
  by (simp_all add: requests_of_def)

lemma createCNAMERecord_requests:
  "createCNAMERecord reg d n t ttl s = (r, evs, s') \<Longrightarrow> requests_of evs = [ReqCreate d n t ttl]"
  by (auto simp add: createCNAMERecord_def Let_def split: sum.splits)

lemma create_for_host_requests:
  "requests_of (fst (create_for_host cfg reg cid host s)) = host_requests cfg host"
proof (cases "length (split_dot host) < 3 \<or> spec_subdomain host = []")
  case True
  then show ?thesis
    by (auto simp add: create_for_host_def host_requests_def spec_subdomain_def Let_def
        js_slice_leading truthy_def)
next
  case False
  then show ?thesis
    by (auto simp add: create_for_host_def host_requests_def spec_subdomain_def spec_domain_def
        Let_def js_slice_leading js_slice_last_two truthy_def
        dest: createCNAMERecord_requests split: prod.splits sum.splits)
qed

lemma create_for_hosts_requests:
  "requests_of (fst (create_for_hosts cfg reg cid hs s)) = concat (map (host_requests cfg) hs)"
proof (induction hs arbitrary: s)
  case Nil
  then show ?case by simp
next
  case (Cons h hs)
  show ?case
    using create_for_host_requests [of cfg reg cid h s] Cons.IH
    by (auto split: prod.splits) (metis fst_conv)+
qed

lemma createDNSRecordsForContainer_requests:
  "requests_of (fst (createDNSRecordsForContainer cfg dk reg full_id s))
     = container_requests cfg dk full_id"
  by (simp add: createDNSRecordsForContainer_def container_requests_def Let_def
      create_for_hosts_requests split: sum.splits)

lemma scheduleRecordDeletion_requests:
  "requests_of (fst (scheduleRecordDeletion cfg cid s)) = []"
  by (simp add: scheduleRecordDeletion_def Let_def split: prod.splits)

lemma schedule_stopped_requests:
  "requests_of (fst (schedule_stopped cfg running krs s)) = []"
proof (induction krs arbitrary: s)
  case Nil
  then show ?case by simp
next
  case (Cons kr krs)
  show ?case
    using scheduleRecordDeletion_requests [of cfg "containerId (snd kr)" s] Cons.IH
    by (auto split: prod.splits) (metis fst_conv)+
qed

lemma process_container_requests:
  "requests_of (fst (process_container cfg dk reg ci (running, s)))
     = (if ci_State ci = ''running'' \<and> \<not> hasRecords s (take 12 (ci_Id ci))
        then container_requests cfg dk (ci_Id ci) else [])"
  using createDNSRecordsForContainer_requests [of cfg dk reg "ci_Id ci" s]
  by (auto simp add: process_container_def Let_def split: prod.splits)

section \<open>Hostname splitting\<close>

lemma split_dot_nonempty [simp]: "split_dot s \<noteq> []"
  by (induction s) (auto split: list.splits)

lemma join_split_dot: "join_dot (split_dot s) = s"
proof (induction s)
  case Nil
  then show ?case by simp
next
  case (Cons c s)
  then show ?case
    by (cases "split_dot s"; cases "tl (split_dot s)") (auto split: list.splits)
qed

lemma join_dot_append:
  "xs \<noteq> [] \<Longrightarrow> ys \<noteq> [] \<Longrightarrow> join_dot (xs @ ys) = join_dot xs @ ''.'' @ join_dot ys"
proof (induction xs rule: join_dot.induct)
  case 1
  then show ?case by simp
next
  case (2 p)
  then show ?case by (cases ys) auto
next
  case (3 p q ps)
  then show ?case by simp
qed

lemma split_roundtrip:
  assumes "3 \<le> length (split_dot host)"
  shows "spec_subdomain host @ ''.'' @ spec_domain host = host"
proof -
  let ?ls = "split_dot host"
  have a: "take (length ?ls - 2) ?ls \<noteq> []" using assms by auto
  have b: "drop (length ?ls - 2) ?ls \<noteq> []" using assms by auto
  have "join_dot (take (length ?ls - 2) ?ls @ drop (length ?ls - 2) ?ls)
          = spec_subdomain host @ ''.'' @ spec_domain host"
    using join_dot_append [OF a b] by (simp add: spec_subdomain_def spec_domain_def Let_def)
  then show ?thesis by (simp add: join_split_dot)
qed

text \<open>
  Claim C7 (hostname splitting), for the body of the loop that processes each hostname; it
  determines the requests and the state after every hostname.
  \<^item> A hostname with fewer than three labels only produces one warning and changes nothing:
    no request is sent for it. The same holds for a hostname of three or more labels whose
    leading labels join to the empty string.
  \<^item> For every other hostname exactly one creation request is sent. Its domain is the last
    two labels of the hostname joined by a dot and its name the remaining leading labels
    joined by a dot (the two, joined by a dot, give the hostname back); target and TTL are
    as configured. When the registrar accepts, the record stored under the key of container
    and hostname carries that same domain and subdomain; when it rejects, the tables are
    unchanged.
\<close>

theorem hostname_splitting:
  "create_for_host cfg reg cid host s = (evs, s') \<Longrightarrow>
   (length (split_dot host) < 3 \<longrightarrow> (\<exists>msg. evs = [Log Warn msg]) \<and> s' = s) \<and>
   (3 \<le> length (split_dot host) \<longrightarrow> spec_subdomain host = [] \<longrightarrow>
      (\<exists>msg. evs = [Log Warn msg]) \<and> s' = s) \<and>
   (3 \<le> length (split_dot host) \<longrightarrow> spec_subdomain host \<noteq> [] \<longrightarrow>
      spec_subdomain host @ ''.'' @ spec_domain host = host \<and>
      requests_of evs = [ReqCreate (spec_domain host) (spec_subdomain host)
                           (js_or (targetDomain cfg) host) 3600] \<and>
      (case post_record reg (requests s) (spec_domain host) (spec_subdomain host)
              (js_or (targetDomain cfg) host) 3600 of
         Inr rid \<Rightarrow>
           s' = s\<lparr>requests := Suc (requests s),
                  managedRecords :=
                    jsmap_set (cid @ ''-'' @ host)
                      \<lparr>recordId = rid, hostname = host, domain = spec_domain host,
                       subdomain = spec_subdomain host, containerId = cid\<rparr>
                      (managedRecords s)\<rparr>
       | Inl e \<Rightarrow> s' = s\<lparr>requests := Suc (requests s)\<rparr>))"
proof -
  assume c: "create_for_host cfg reg cid host s = (evs, s')"
  let ?answer = "post_record reg (requests s) (spec_domain host) (spec_subdomain host)
                   (js_or (targetDomain cfg) host) 3600"
  have a: "(\<exists>msg. evs = [Log Warn msg]) \<and> s' = s" if l: "length (split_dot host) < 3"
  proof -
    have "length (split_dot host) < 2 \<or> length (split_dot host) = 2" using l by arith
    then show ?thesis
      using c by (auto simp add: create_for_host_def Let_def js_slice_leading truthy_def)
  qed
  have b: "(\<exists>msg. evs = [Log Warn msg]) \<and> s' = s"
    if l: "3 \<le> length (split_dot host)" and e: "spec_subdomain host = []"
    using c l e
    by (auto simp add: create_for_host_def Let_def js_slice_leading truthy_def spec_subdomain_def)
  have d1: "spec_subdomain host @ ''.'' @ spec_domain host = host"
    if l: "3 \<le> length (split_dot host)"
    using split_roundtrip [OF l] .
  have d2: "requests_of evs = [ReqCreate (spec_domain host) (spec_subdomain host)
                                 (js_or (targetDomain cfg) host) 3600]"
    if l: "3 \<le> length (split_dot host)" and e: "spec_subdomain host \<noteq> []"
    using create_for_host_requests [of cfg reg cid host s] c l e
    by (simp add: host_requests_def)
  have d3: "case ?answer of
         Inr rid \<Rightarrow>
           s' = s\<lparr>requests := Suc (requests s),
                  managedRecords :=
                    jsmap_set (cid @ ''-'' @ host)
                      \<lparr>recordId = rid, hostname = host, domain = spec_domain host,
                       subdomain = spec_subdomain host, containerId = cid\<rparr>
                      (managedRecords s)\<rparr>
       | Inl e \<Rightarrow> s' = s\<lparr>requests := Suc (requests s)\<rparr>"
    if l: "3 \<le> length (split_dot host)" and e: "spec_subdomain host \<noteq> []"
    using c l e
    by (auto simp add: create_for_host_def Let_def js_slice_leading js_slice_last_two truthy_def
        spec_subdomain_def spec_domain_def createCNAMERecord_def split: sum.splits)
  show ?thesis using a b d1 d2 d3 by blast
qed

theorem hostname_splitting_witness:
  "length (split_dot ''example.com'') < 3
   \<and> create_for_host cfg0 reg_accept ''0123456789ab'' ''example.com'' init
       = ([Log Warn ''No subdomain found for host: example.com''], init)
   \<and> 3 \<le> length (split_dot ''.example.com'') \<and> spec_subdomain ''.example.com'' = []
   \<and> snd (create_for_host cfg0 reg_accept ''0123456789ab'' ''.example.com'' init) = init
   \<and> 3 \<le> length (split_dot ''app.example.com'') \<and> spec_subdomain ''app.example.com'' \<noteq> []
   \<and> spec_domain ''app.example.com'' = ''example.com''
   \<and> spec_subdomain ''app.example.com'' = ''app''
   \<and> requests_of (fst (create_for_host cfg0 reg_accept ''0123456789ab'' ''app.example.com'' init))
       = [ReqCreate ''example.com'' ''app'' ''srv.example.net'' 3600]
   \<and> managedRecords (snd (create_for_host cfg0 reg_accept ''0123456789ab'' ''app.example.com'' init))
       = [(''0123456789ab-app.example.com'',
           \<lparr>recordId = 100, hostname = ''app.example.com'', domain = ''example.com'',
            subdomain = ''app'', containerId = ''0123456789ab''\<rparr>)]"
proof -
  let ?two = "create_for_host cfg0 reg_accept ''0123456789ab'' ''example.com'' init"
  let ?dot = "create_for_host cfg0 reg_accept ''0123456789ab'' ''.example.com'' init"
  let ?app = "create_for_host cfg0 reg_accept ''0123456789ab'' ''app.example.com'' init"
  have l2: "length (split_dot ''example.com'') < 3"
    by code_simp
  have l3: "3 \<le> length (split_dot ''.example.com'')" "spec_subdomain ''.example.com'' = []"
    by code_simp+
  have la: "3 \<le> length (split_dot ''app.example.com'')" "spec_subdomain ''app.example.com'' \<noteq> []"
    by code_simp+
  have v: "spec_domain ''app.example.com'' = ''example.com''"
      "spec_subdomain ''app.example.com'' = ''app''"
    by code_simp+
  have e2: "?two = (fst ?two, snd ?two)" and e3: "?dot = (fst ?dot, snd ?dot)"
    and ea: "?app = (fst ?app, snd ?app)"
    by simp_all
  have two: "(\<exists>msg. fst ?two = [Log Warn msg]) \<and> snd ?two = init"
    using hostname_splitting [OF e2] l2 by blast
  have w: "fst ?two = [Log Warn ''No subdomain found for host: example.com'']"
    by code_simp
  have dot: "snd ?dot = init"
    using hostname_splitting [OF e3] l3 by blast
  have app: "requests_of (fst ?app)
               = [ReqCreate (spec_domain ''app.example.com'') (spec_subdomain ''app.example.com'')
                    (js_or (targetDomain cfg0) ''app.example.com'') 3600]
             \<and> (case post_record reg_accept (requests init) (spec_domain ''app.example.com'')
                        (spec_subdomain ''app.example.com'')
                        (js_or (targetDomain cfg0) ''app.example.com'') 3600 of
                   Inr rid \<Rightarrow>
                     snd ?app = init\<lparr>requests := Suc (requests init),
                       managedRecords :=
                         jsmap_set (''0123456789ab'' @ ''-'' @ ''app.example.com'')
                           \<lparr>recordId = rid, hostname = ''app.example.com'',
                            domain = spec_domain ''app.example.com'',
                            subdomain = spec_subdomain ''app.example.com'',
                            containerId = ''0123456789ab''\<rparr>
                           (managedRecords init)\<rparr>
                 | Inl e \<Rightarrow> snd ?app = init\<lparr>requests := Suc (requests init)\<rparr>)"
    using hostname_splitting [OF ea] la by blast
  have r: "requests_of (fst ?app) = [ReqCreate ''example.com'' ''app'' ''srv.example.net'' 3600]"
    using app v by (simp add: cfg0_def js_or_def truthy_def)
  have m: "managedRecords (snd ?app)
       = [(''0123456789ab-app.example.com'',
           \<lparr>recordId = 100, hostname = ''app.example.com'', domain = ''example.com'',
            subdomain = ''app'', containerId = ''0123456789ab''\<rparr>)]"
    using app v by (simp add: reg_accept_def init_def)
  show ?thesis
    using l2 l3 la v two w dot r m by (simp add: prod_eq_iff)
qed

section \<open>The scenario of one container with a backtick rule\<close>

lemma extract_scenario:
  "extractTraefikHosts [(''traefik.enable'', ''true''),
      (''traefik.http.routers.app.rule'', ''Host(`app.example.com`)'')]
     = [''app.example.com'', ''`app.example.com`'']"
  by code_simp

lemma split_scenario:
  "split_dot ''app.example.com'' = [''app'', ''example'', ''com'']"
  "split_dot ''`app.example.com`'' = [''`app'', ''example'', ''com`'']"
  by code_simp+

text \<open>
  Claim C8, the scenario: one running container with the enablement label and the rule
  \<^verbatim>\<open>Host(`app.example.com`)\<close>, first tick on the empty tables. Whatever the configuration and
  the registrar's answers, the tick sends two creation requests: the expected one, and one
  for the token that kept its backticks, with domain \<^verbatim>\<open>example.com`\<close> and name \<^verbatim>\<open>`app\<close>.
  Target and TTL are as the claim says in both.
\<close>

theorem scenario_two_create_requests:
  "requests_of (fst (snd (monitorContainers cfg (one_container ''running'' ''Host(`app.example.com`)'')
                            reg init))) =
   [ReqCreate ''example.com'' ''app'' (js_or (targetDomain cfg) ''app.example.com'') 3600,
    ReqCreate ''example.com`'' ''`app'' (js_or (targetDomain cfg) ''`app.example.com`'') 3600]"
proof -
  let ?dk = "one_container ''running'' ''Host(`app.example.com`)''"
  let ?ci = "\<lparr>ci_Id = ''0123456789abcdef'', ci_State = ''running''\<rparr>"
  have c: "container_requests cfg ?dk ''0123456789abcdef'' =
    [ReqCreate ''example.com'' ''app'' (js_or (targetDomain cfg) ''app.example.com'') 3600,
     ReqCreate ''example.com`'' ''`app'' (js_or (targetDomain cfg) ''`app.example.com`'') 3600]"
    by (simp add: container_requests_def one_container_def labels_of_def extract_scenario
        host_requests_def split_scenario spec_domain_def spec_subdomain_def)
  have h: "\<not> hasRecords init (take 12 ''0123456789abcdef'')"
    by (simp add: hasRecords_def init_def)
  obtain e1 r1 s1 where p: "process_container cfg ?dk reg ?ci ([], init) = (e1, r1, s1)"
    by (metis prod_cases3)
  have e1: "requests_of e1 = container_requests cfg ?dk ''0123456789abcdef''"
    using process_container_requests [of cfg ?dk reg ?ci "[]" init] p h by simp
  obtain e2 s2 where q: "schedule_stopped cfg r1 (managedRecords s1) s1 = (e2, s2)"
    by (metis prod.exhaust)
  have e2: "requests_of e2 = []"
    using schedule_stopped_requests [of cfg r1 "managedRecords s1" s1] q by simp
  have "monitorContainers cfg ?dk reg init = (None, e1 @ e2, s2)"
    using p q by (simp add: monitorContainers_def monitorContainers_try_def one_container_def)
  then show ?thesis using e1 e2 c by simp
qed

section \<open>Route handlers\<close>

text \<open>
  Claim C2 at the failing input: the container listing throws. \<open>monitorContainers\<close> catches
  the error and logs it, its promise is fulfilled, and the sync handler answers 200 with
  \<open>Sync completed\<close>; its own \<^verbatim>\<open>catch\<close> branch, which would answer 500, is never reached
  (\<open>sync_handler_never_500\<close>).
\<close>

theorem sync_listing_failure_reports_completed:
  "sync_handler cfg (dk\<lparr>listContainers := Inl e\<rparr>) reg now s =
     ((200, SyncCompleted ''Sync completed'' now),
      [Log Info ''Manual sync triggered'', Log Err ''Error monitoring containers''], s)"
  by (simp add: sync_handler_def monitorContainers_def monitorContainers_try_def)

text \<open>
  Claim C10 (the health endpoint is unconditional): every request is answered with status
  200 and \<open>status = healthy\<close>; \<open>hasCredentials\<close> is true exactly when the account name and the
  API key are both non-empty; and the answer is the same whatever the runtime, the registrar
  and the engine's tables are.
\<close>

theorem health_unconditional:
  "fst (health_handler cfg dk reg now s) = 200
   \<and> h_status (snd (health_handler cfg dk reg now s)) = ''healthy''
   \<and> h_hasCredentials (h_config (snd (health_handler cfg dk reg now s)))
       = (accountName cfg \<noteq> [] \<and> apiKey cfg \<noteq> [])
   \<and> health_handler cfg dk reg now s = health_handler cfg dk' reg' now s'"
  by (simp add: health_handler_def truthy_def js_and_def)

section \<open>A deletion timer fires\<close>

lemma length_delete_outcomes [simp]: "length (delete_outcomes reg n krs) = length krs"
  by (induction krs arbitrary: n) auto

lemma delete_one_effect:
  "delete_one reg kr s = (evs, s') \<Longrightarrow>
     filter is_request evs = [delete_event (kr, delete_record reg (requests s) (domain (snd kr)) (recordId (snd kr)))]
   \<and> s' = s\<lparr>requests := Suc (requests s),
              managedRecords := (case delete_record reg (requests s) (domain (snd kr)) (recordId (snd kr)) of
                  Inr u \<Rightarrow> jsmap_delete (fst kr) (managedRecords s) | Inl e \<Rightarrow> managedRecords s)\<rparr>"
  by (cases kr) (auto simp add: delete_one_def deleteRecord_def delete_event_def Let_def split: sum.splits)

lemma ok_keys_Nil [simp]: "ok_keys reg n [] = {}"
  by (simp add: ok_keys_def)

lemma ok_keys_Cons:
  "ok_keys reg n (kr # krs) =
     (case delete_record reg n (domain (snd kr)) (recordId (snd kr)) of
        Inr u \<Rightarrow> {fst kr} | Inl e \<Rightarrow> {}) \<union> ok_keys reg (Suc n) krs"
  by (cases kr) (auto simp add: ok_keys_def split: sum.splits)

lemma delete_all_effect:
  "delete_all reg krs s = (evs, s') \<Longrightarrow>
     filter is_request evs = map delete_event (zip krs (delete_outcomes reg (requests s) krs))
   \<and> s' = s\<lparr>requests := requests s + length krs,
              managedRecords := filter (\<lambda>kr. fst kr \<notin> ok_keys reg (requests s) krs) (managedRecords s)\<rparr>"
proof (induction krs arbitrary: s evs s')
  case Nil
  then show ?case by simp
next
  case (Cons kr krs)
  obtain e1 s1 where d1: "delete_one reg kr s = (e1, s1)" by (metis prod.exhaust)
  obtain e2 s2 where d2: "delete_all reg krs s1 = (e2, s2)" by (metis prod.exhaust)
  have ev: "evs = e1 @ e2" and st: "s' = s2" using Cons.prems d1 d2 by simp_all
  note a = delete_one_effect [OF d1]
  note b = Cons.IH [OF d2]
  have rq: "requests s1 = Suc (requests s)" using a by simp
  show ?case
  proof (cases "delete_record reg (requests s) (domain (snd kr)) (recordId (snd kr))")
    case (Inl e)
    then show ?thesis
      using a b ev st rq by (simp add: ok_keys_Cons)
  next
    case (Inr u)
    then show ?thesis
      using a b ev st rq by (simp add: ok_keys_Cons jsmap_delete_def conj_commute)
  qed
qed

lemma ok_keys_entry:
  assumes d: "distinct (map fst m)" and sub: "set krs \<subseteq> set m" and kr: "kr \<in> set m"
  shows "fst kr \<in> ok_keys reg n krs \<longleftrightarrow> (kr, Inr ()) \<in> set (zip krs (delete_outcomes reg n krs))"
proof
  assume "fst kr \<in> ok_keys reg n krs"
  then obtain kr' where k: "fst kr' = fst kr" and z: "(kr', Inr ()) \<in> set (zip krs (delete_outcomes reg n krs))"
    by (auto simp add: ok_keys_def)
  have "kr' \<in> set krs" using z by (meson set_zip_leftD)
  then have "kr' \<in> set m" using sub by auto
  then have "kr' = kr" using d kr k by (metis eq_key_imp_eq_value prod.collapse)
  then show "(kr, Inr ()) \<in> set (zip krs (delete_outcomes reg n krs))" using z by simp
next
  assume "(kr, Inr ()) \<in> set (zip krs (delete_outcomes reg n krs))"
  then show "fst kr \<in> ok_keys reg n krs" by (cases kr) (auto simp add: ok_keys_def)
qed

lemma deletion_callback_effect:
  assumes d: "distinct (map fst (managedRecords s))"
    and c: "deletion_callback reg cid s = (evs, s')"
    and o: "owned = filter (\<lambda>kr. containerId (snd kr) = cid) (managedRecords s)"
    and outs: "outs = delete_outcomes reg (requests s) owned"
  shows "filter is_request evs = map delete_event (zip owned outs)
       \<and> managedRecords s' = filter (\<lambda>kr. (kr, Inr ()) \<notin> set (zip owned outs)) (managedRecords s)
       \<and> deletePendingRecords s' = jsmap_delete cid (deletePendingRecords s)
       \<and> timers s' = timers s \<and> next_timer s' = next_timer s"
proof -
  obtain s1 where da: "delete_all reg owned s = (evs, s1)"
    and s': "s' = s1\<lparr>deletePendingRecords := jsmap_delete cid (deletePendingRecords s1)\<rparr>"
    using c o by (auto simp add: deletion_callback_def Let_def split: prod.splits)
  note e = delete_all_effect [OF da]
  have sub: "set owned \<subseteq> set (managedRecords s)" using o by auto
  have "filter (\<lambda>kr. fst kr \<notin> ok_keys reg (requests s) owned) (managedRecords s)
      = filter (\<lambda>kr. (kr, Inr ()) \<notin> set (zip owned outs)) (managedRecords s)"
    using ok_keys_entry [OF d sub] outs by (intro filter_cong) auto
  then show ?thesis using e s' outs by simp
qed


text \<open>
  Claim C6 (deletion firing semantics). When the armed timer \<open>t\<close> of container \<open>cid\<close> fires
  in a state whose table has distinct keys: the requests sent are exactly one deletion
  request for each record owned by \<open>cid\<close>, in table order, each with the registrar's
  answer; a record stays in the table exactly when it is not an owned record whose request
  was answered with success; and the pending-deletion entry of \<open>cid\<close> is removed whatever
  the answers were.
\<close>

theorem deletion_firing:
  assumes "distinct (map fst (managedRecords s))"
    and "map_of (timers s) t = Some cid"
    and "fire_timer reg t s = (evs, s')"
    and "owned = filter (\<lambda>kr. containerId (snd kr) = cid) (managedRecords s)"
    and "outs = delete_outcomes reg (requests s) owned"
  shows "filter is_request evs = map delete_event (zip owned outs)
       \<and> length outs = length owned
       \<and> managedRecords s' = filter (\<lambda>kr. (kr, Inr ()) \<notin> set (zip owned outs)) (managedRecords s)
       \<and> deletePendingRecords s' = jsmap_delete cid (deletePendingRecords s)
       \<and> \<not> jsmap_has (deletePendingRecords s') cid"
proof -
  let ?s0 = "clearTimeout t s"
  have c: "deletion_callback reg cid ?s0 = (evs, s')"
    using assms(2,3) by (simp add: fire_timer_def)
  have m: "managedRecords ?s0 = managedRecords s" "requests ?s0 = requests s"
    "deletePendingRecords ?s0 = deletePendingRecords s"
    by (simp_all add: clearTimeout_def)
  have "filter is_request evs = map delete_event (zip owned outs)
       \<and> managedRecords s' = filter (\<lambda>kr. (kr, Inr ()) \<notin> set (zip owned outs)) (managedRecords ?s0)
       \<and> deletePendingRecords s' = jsmap_delete cid (deletePendingRecords ?s0)
       \<and> timers s' = timers ?s0 \<and> next_timer s' = next_timer ?s0"
    using deletion_callback_effect [OF _ c, of owned outs] assms(1,4,5) m by simp
  then show ?thesis using m assms(5) by (auto simp add: jsmap_has_def jsmap_delete_def)
qed


theorem deletion_firing_witness:
  "distinct (map fst (managedRecords s_pending))
   \<and> map_of (timers s_pending) 0 = Some ''aaaaaaaaaaaa''
   \<and> delete_outcomes reg_flaky (requests s_pending)
        [rec_of 100 ''aaaaaaaaaaaa'' ''app'' ''example.com'',
         rec_of 101 ''aaaaaaaaaaaa'' ''api'' ''example.com''] = [Inr (), Inl ''404'']
   \<and> managedRecords (snd (fire_timer reg_flaky 0 s_pending))
        = [rec_of 101 ''aaaaaaaaaaaa'' ''api'' ''example.com'',
           rec_of 102 ''bbbbbbbbbbbb'' ''web'' ''example.org'']
   \<and> deletePendingRecords (snd (fire_timer reg_flaky 0 s_pending)) = []"
proof -
  let ?owned = "[rec_of 100 ''aaaaaaaaaaaa'' ''app'' ''example.com'',
                 rec_of 101 ''aaaaaaaaaaaa'' ''api'' ''example.com'']"
  have d: "distinct (map fst (managedRecords s_pending))"
    by (simp add: s_pending_def rec_of_def)
  have m: "map_of (timers s_pending) 0 = Some ''aaaaaaaaaaaa''"
    by (simp add: s_pending_def)
  have o: "?owned = filter (\<lambda>kr. containerId (snd kr) = ''aaaaaaaaaaaa'') (managedRecords s_pending)"
    by (simp add: s_pending_def rec_of_def)
  have outs: "[Inr (), Inl ''404''] = delete_outcomes reg_flaky (requests s_pending) ?owned"
    by (simp add: s_pending_def rec_of_def reg_flaky_def)
  have f: "fire_timer reg_flaky 0 s_pending
             = (fst (fire_timer reg_flaky 0 s_pending), snd (fire_timer reg_flaky 0 s_pending))"
    by simp
  have "managedRecords (snd (fire_timer reg_flaky 0 s_pending))
          = filter (\<lambda>kr. (kr, Inr ()) \<notin> set (zip ?owned [Inr (), Inl ''404''])) (managedRecords s_pending)
        \<and> deletePendingRecords (snd (fire_timer reg_flaky 0 s_pending))
          = jsmap_delete ''aaaaaaaaaaaa'' (deletePendingRecords s_pending)"
    using deletion_firing [OF d m f o outs] by simp
  then show ?thesis using d m outs [symmetric]
    by (simp add: s_pending_def rec_of_def jsmap_delete_def)
qed


section \<open>The invariant when every step runs to completion\<close>

lemma jsmap_set_keys: "set (map fst (jsmap_set k v m)) = insert k (set (map fst m))"
  by (induction m) auto

lemma jsmap_set_distinct: "distinct (map fst m) \<Longrightarrow> distinct (map fst (jsmap_set k v m))"
  by (induction m) (auto simp add: jsmap_set_keys [simplified])

lemma jsmap_set_map_of: "map_of (jsmap_set k v m) k' = (if k' = k then Some v else map_of m k')"
  by (induction m) auto

lemma jsmap_set_entries:
  "distinct (map fst m) \<Longrightarrow> set (jsmap_set k v m) = insert (k, v) {p \<in> set m. fst p \<noteq> k}"
  by (induction m) (auto simp add: rev_image_eqI)

lemma jsmap_delete_distinct: "distinct (map fst m) \<Longrightarrow> distinct (map fst (jsmap_delete k m))"
  by (simp add: jsmap_delete_def distinct_map_filter)

lemma jsmap_delete_map_of:
  "map_of (jsmap_delete k m) k' = (if k' = k then None else map_of m k')"
  by (induction m) (auto simp add: jsmap_delete_def)

lemma timers_inv_cancel:
  assumes i: "timers_inv pend tms nxt" and g: "map_of pend cid = Some t"
  shows "timers_inv (jsmap_delete cid pend) (filter (\<lambda>p. fst p \<noteq> t) tms) nxt"
proof -
  have tc: "(t, cid) \<in> set tms" using i g by (auto simp add: timers_inv_def dest: map_of_SomeD)
  have u: "\<And>c. (t, c) \<in> set tms \<Longrightarrow> c = cid"
    using i tc by (auto simp add: timers_inv_def dest: eq_key_imp_eq_value)
  show ?thesis
    unfolding timers_inv_def
  proof (intro conjI ballI)
    show "distinct (map fst (jsmap_delete cid pend))"
      using i by (simp add: timers_inv_def jsmap_delete_distinct)
    show "distinct (map fst (filter (\<lambda>p. fst p \<noteq> t) tms))"
      using i by (simp add: timers_inv_def distinct_map_filter)
  next
    fix p assume p: "p \<in> set (filter (\<lambda>p. fst p \<noteq> t) tms)"
    then have a: "fst p < nxt" "map_of pend (snd p) = Some (fst p)" "fst p \<noteq> t"
      using i by (auto simp add: timers_inv_def)
    then have "snd p \<noteq> cid" using g by auto
    then show "fst p < nxt" "map_of (jsmap_delete cid pend) (snd p) = Some (fst p)"
      using a by (simp_all add: jsmap_delete_map_of)
  next
    fix q assume q: "q \<in> set (jsmap_delete cid pend)"
    then have a: "q \<in> set pend" "fst q \<noteq> cid" by (auto simp add: jsmap_delete_def)
    then have b: "(snd q, fst q) \<in> set tms" using i by (auto simp add: timers_inv_def)
    then have "snd q \<noteq> t" using u a by auto
    then show "(snd q, fst q) \<in> set (filter (\<lambda>p. fst p \<noteq> t) tms)" using b by simp
  qed
qed

lemma timers_inv_arm_fresh:
  assumes i: "timers_inv pend tms nxt" and g: "map_of pend cid = None"
  shows "timers_inv (jsmap_set cid nxt pend) (tms @ [(nxt, cid)]) (Suc nxt)"
proof -
  have nk: "cid \<notin> fst ` set pend" using g by (simp add: map_of_eq_None_iff)
  show ?thesis
    unfolding timers_inv_def
  proof (intro conjI ballI)
    show "distinct (map fst (jsmap_set cid nxt pend))"
      using i by (simp add: timers_inv_def jsmap_set_distinct)
    show "distinct (map fst (tms @ [(nxt, cid)]))"
      using i by (auto simp add: timers_inv_def)
  next
    fix p assume "p \<in> set (tms @ [(nxt, cid)])"
    then consider "p \<in> set tms" | "p = (nxt, cid)" by auto
    then show "fst p < Suc nxt"
      using i by cases (auto simp add: timers_inv_def)
  next
    fix p assume "p \<in> set (tms @ [(nxt, cid)])"
    then consider "p \<in> set tms" | "p = (nxt, cid)" by auto
    then show "map_of (jsmap_set cid nxt pend) (snd p) = Some (fst p)"
    proof cases
      case 1
      then have "map_of pend (snd p) = Some (fst p)" using i by (auto simp add: timers_inv_def)
      then have "snd p \<noteq> cid" using g by auto
      then show ?thesis using \<open>map_of pend (snd p) = Some (fst p)\<close> by (simp add: jsmap_set_map_of)
    next
      case 2
      then show ?thesis by (simp add: jsmap_set_map_of)
    qed
  next
    fix q assume "q \<in> set (jsmap_set cid nxt pend)"
    then have "q = (cid, nxt) \<or> q \<in> set pend"
      using i by (auto simp add: timers_inv_def jsmap_set_entries)
    then show "(snd q, fst q) \<in> set (tms @ [(nxt, cid)])"
      using i by (auto simp add: timers_inv_def)
  qed
qed

lemma jsmap_delete_set_absent:
  "jsmap_set k v (jsmap_delete k m) = jsmap_delete k m @ [(k, v)]"
  by (induction m) (auto simp add: jsmap_delete_def)


lemma timers_inv_rearm:
  assumes i: "timers_inv pend tms nxt" and g: "map_of pend cid = Some t"
  shows "timers_inv (jsmap_set cid nxt pend) (filter (\<lambda>p. fst p \<noteq> t) tms @ [(nxt, cid)]) (Suc nxt)"
proof -
  have tc: "(t, cid) \<in> set tms" using i g by (auto simp add: timers_inv_def dest: map_of_SomeD)
  have u: "\<And>c. (t, c) \<in> set tms \<Longrightarrow> c = cid"
    using i tc by (auto simp add: timers_inv_def dest: eq_key_imp_eq_value)
  show ?thesis
    unfolding timers_inv_def
  proof (intro conjI ballI)
    show "distinct (map fst (jsmap_set cid nxt pend))"
      using i by (simp add: timers_inv_def jsmap_set_distinct)
    show "distinct (map fst (filter (\<lambda>p. fst p \<noteq> t) tms @ [(nxt, cid)]))"
      using i by (auto simp add: timers_inv_def distinct_map_filter)
  next
    fix p assume "p \<in> set (filter (\<lambda>p. fst p \<noteq> t) tms @ [(nxt, cid)])"
    then consider "p \<in> set tms" "fst p \<noteq> t" | "p = (nxt, cid)" by auto
    then show "fst p < Suc nxt"
      using i by cases (auto simp add: timers_inv_def)
  next
    fix p assume "p \<in> set (filter (\<lambda>p. fst p \<noteq> t) tms @ [(nxt, cid)])"
    then consider "p \<in> set tms" "fst p \<noteq> t" | "p = (nxt, cid)" by auto
    then show "map_of (jsmap_set cid nxt pend) (snd p) = Some (fst p)"
    proof cases
      case 1
      then have m: "map_of pend (snd p) = Some (fst p)" using i by (auto simp add: timers_inv_def)
      then have "snd p \<noteq> cid" using g 1 by auto
      then show ?thesis using m by (simp add: jsmap_set_map_of)
    next
      case 2
      then show ?thesis by (simp add: jsmap_set_map_of)
    qed
  next
    fix q assume "q \<in> set (jsmap_set cid nxt pend)"
    then consider "q = (cid, nxt)" | "q \<in> set pend" "fst q \<noteq> cid"
      using i by (auto simp add: timers_inv_def jsmap_set_entries)
    then show "(snd q, fst q) \<in> set (filter (\<lambda>p. fst p \<noteq> t) tms @ [(nxt, cid)])"
    proof cases
      case 1
      then show ?thesis by simp
    next
      case 2
      then have b: "(snd q, fst q) \<in> set tms" using i by (auto simp add: timers_inv_def)
      then have "snd q \<noteq> t" using u 2 by auto
      then show ?thesis using b by simp
    qed
  qed
qed

lemma jsmap_has_map_of: "jsmap_has m k \<longleftrightarrow> map_of m k \<noteq> None"
  by (simp add: jsmap_has_def map_of_eq_None_iff)

lemma scheduleRecordDeletion_fields:
  "scheduleRecordDeletion cfg cid s = (evs, s') \<Longrightarrow>
     managedRecords s' = managedRecords s \<and> requests s' = requests s
   \<and> next_timer s' = Suc (next_timer s)
   \<and> deletePendingRecords s' = jsmap_set cid (next_timer s) (deletePendingRecords s)
   \<and> timers s' = (case map_of (deletePendingRecords s) cid of
                     Some t \<Rightarrow> filter (\<lambda>p. fst p \<noteq> t) (timers s)
                   | None \<Rightarrow> timers s) @ [(next_timer s, cid)]"
  by (auto simp add: scheduleRecordDeletion_def setTimeout_def clearTimeout_def Let_def
      jsmap_has_map_of jsmap_get_def split: option.splits)

lemma scheduleRecordDeletion_inv:
  assumes "engine_inv s"
  shows "engine_inv (snd (scheduleRecordDeletion cfg cid s))"
proof -
  obtain evs s' where e: "scheduleRecordDeletion cfg cid s = (evs, s')" by (metis prod.exhaust)
  note f = scheduleRecordDeletion_fields [OF e]
  have i: "timers_inv (deletePendingRecords s) (timers s) (next_timer s)"
    using assms by (simp add: engine_inv_def)
  have "timers_inv (deletePendingRecords s') (timers s') (next_timer s')"
  proof (cases "map_of (deletePendingRecords s) cid")
    case None
    then show ?thesis using f timers_inv_arm_fresh [OF i None] by simp
  next
    case (Some t)
    then show ?thesis using f timers_inv_rearm [OF i Some] by simp
  qed
  then show ?thesis using assms f e by (simp add: engine_inv_def)
qed

lemma createCNAMERecord_fields:
  "createCNAMERecord reg d n t ttl s = (r, evs, s') \<Longrightarrow> s' = s\<lparr>requests := Suc (requests s)\<rparr>"
  by (auto simp add: createCNAMERecord_def Let_def split: sum.splits)

lemma create_for_host_inv:
  assumes "engine_inv s" and "create_for_host cfg reg cid host s = (evs, s')"
  shows "engine_inv s' \<and> deletePendingRecords s' = deletePendingRecords s
         \<and> timers s' = timers s \<and> next_timer s' = next_timer s"
  using assms
  by (auto simp add: create_for_host_def Let_def engine_inv_def jsmap_set_distinct
      dest!: createCNAMERecord_fields split: if_splits prod.splits sum.splits)

lemma create_for_hosts_inv:
  "engine_inv s \<Longrightarrow> create_for_hosts cfg reg cid hs s = (evs, s') \<Longrightarrow>
     engine_inv s' \<and> deletePendingRecords s' = deletePendingRecords s
     \<and> timers s' = timers s \<and> next_timer s' = next_timer s"
proof (induction hs arbitrary: s evs s')
  case Nil
  then show ?case by simp
next
  case (Cons h hs)
  obtain e1 s1 where a: "create_for_host cfg reg cid h s = (e1, s1)" by (metis prod.exhaust)
  obtain e2 s2 where b: "create_for_hosts cfg reg cid hs s1 = (e2, s2)" by (metis prod.exhaust)
  have "s' = s2" using Cons.prems(2) a b by simp
  then show ?case
    using create_for_host_inv [OF Cons.prems(1) a] Cons.IH [OF _ b] by simp
qed

lemma createDNSRecordsForContainer_inv:
  assumes "engine_inv s" and "createDNSRecordsForContainer cfg dk reg full_id s = (evs, s')"
  shows "engine_inv s' \<and> deletePendingRecords s' = deletePendingRecords s
         \<and> timers s' = timers s \<and> next_timer s' = next_timer s"
  using assms create_for_hosts_inv [OF assms(1)]
  by (auto simp add: createDNSRecordsForContainer_def Let_def split: sum.splits if_splits)

lemma cancel_inv:
  assumes i: "engine_inv s" and h: "jsmap_has (deletePendingRecords s) cid"
  shows "engine_inv ((case jsmap_get (deletePendingRecords s) cid of
                        Some t \<Rightarrow> clearTimeout t s | None \<Rightarrow> s)
                       \<lparr>deletePendingRecords := jsmap_delete cid (deletePendingRecords s)\<rparr>)"
proof -
  obtain t where g: "map_of (deletePendingRecords s) cid = Some t"
    using h by (auto simp add: jsmap_has_map_of)
  have "timers_inv (deletePendingRecords s) (timers s) (next_timer s)"
    using i by (simp add: engine_inv_def)
  from timers_inv_cancel [OF this g] show ?thesis
    using i g by (simp add: engine_inv_def jsmap_get_def clearTimeout_def)
qed

lemma process_container_inv:
  assumes "engine_inv s" and "process_container cfg dk reg ci (running, s) = (evs, running', s')"
  shows "engine_inv s'"
proof (cases "ci_State ci = ''running''")
  case False
  then show ?thesis using assms by (simp add: process_container_def)
next
  case True
  let ?cid = "take 12 (ci_Id ci)"
  obtain e1 s1 where c: "(if \<not> hasRecords s ?cid
           then createDNSRecordsForContainer cfg dk reg (ci_Id ci) s else ([], s)) = (e1, s1)"
    by (metis prod.exhaust)
  have i1: "engine_inv s1"
    using c assms(1) createDNSRecordsForContainer_inv by (auto split: if_splits)
  show ?thesis
  proof (cases "jsmap_has (deletePendingRecords s1) ?cid")
    case h: True
    have "s' = (case jsmap_get (deletePendingRecords s1) ?cid of
                        Some t \<Rightarrow> clearTimeout t s1 | None \<Rightarrow> s1)
                       \<lparr>deletePendingRecords := jsmap_delete ?cid (deletePendingRecords s1)\<rparr>"
      using assms(2) True c h by (simp add: process_container_def Let_def)
    then show ?thesis using cancel_inv [OF i1 h] by simp
  next
    case h: False
    have "s' = s1" using assms(2) True c h by (simp add: process_container_def Let_def)
    then show ?thesis using i1 by simp
  qed
qed

lemma process_containers_inv:
  "engine_inv s \<Longrightarrow> process_containers cfg dk reg cis (running, s) = (evs, running', s')
     \<Longrightarrow> engine_inv s'"
proof (induction cis arbitrary: running s evs running' s')
  case Nil
  then show ?case by simp
next
  case (Cons ci cis)
  obtain e1 r1 s1 where a: "process_container cfg dk reg ci (running, s) = (e1, r1, s1)"
    by (metis prod_cases3)
  obtain e2 r2 s2 where b: "process_containers cfg dk reg cis (r1, s1) = (e2, r2, s2)"
    by (metis prod_cases3)
  have "s' = s2" using Cons.prems(2) a b by simp
  then show ?case
    using Cons.IH [OF process_container_inv [OF Cons.prems(1) a] b] by simp
qed

lemma schedule_stopped_inv:
  "engine_inv s \<Longrightarrow> engine_inv (snd (schedule_stopped cfg running krs s))"
proof (induction krs arbitrary: s)
  case Nil
  then show ?case by simp
next
  case (Cons kr krs)
  show ?case
    using Cons.IH [OF scheduleRecordDeletion_inv [OF Cons.prems, of cfg "containerId (snd kr)"]]
      Cons.IH [OF Cons.prems]
    by (auto split: prod.splits)
qed

lemma monitorContainers_inv:
  assumes "engine_inv s"
  shows "engine_inv (snd (snd (monitorContainers cfg dk reg s)))"
proof (cases "listContainers dk")
  case (Inl e)
  then show ?thesis using assms by (simp add: monitorContainers_def monitorContainers_try_def)
next
  case (Inr cis)
  obtain e1 r1 s1 where a: "process_containers cfg dk reg cis ([], s) = (e1, r1, s1)"
    by (metis prod_cases3)
  have "engine_inv (snd (schedule_stopped cfg r1 (managedRecords s1) s1))"
    using schedule_stopped_inv [OF process_containers_inv [OF assms a]] .
  then show ?thesis
    using Inr a by (auto simp add: monitorContainers_def monitorContainers_try_def split: prod.splits)
qed

lemma sync_handler_state:
  "snd (snd (sync_handler cfg dk reg now s)) = snd (snd (monitorContainers cfg dk reg s))"
  by (auto simp add: sync_handler_def split: prod.splits option.splits)

lemma fire_timer_inv:
  assumes i: "engine_inv s" and m: "map_of (timers s) t = Some cid"
  shows "engine_inv (snd (fire_timer reg t s))"
proof -
  let ?s0 = "clearTimeout t s"
  obtain evs s' where c: "deletion_callback reg cid ?s0 = (evs, s')" by (metis prod.exhaust)
  have d0: "distinct (map fst (managedRecords ?s0))"
    using i by (simp add: engine_inv_def clearTimeout_def)
  note e = deletion_callback_effect [OF d0 c refl refl]
  have ti: "timers_inv (deletePendingRecords s) (timers s) (next_timer s)"
    using i by (simp add: engine_inv_def)
  have g: "map_of (deletePendingRecords s) cid = Some t"
    using ti m by (auto simp add: timers_inv_def dest!: map_of_SomeD)
  have "timers_inv (deletePendingRecords s') (timers s') (next_timer s')"
    using e timers_inv_cancel [OF ti g] by (simp add: clearTimeout_def)
  moreover have "distinct (map fst (managedRecords s'))"
    using e d0 by (simp add: distinct_map_filter)
  ultimately show ?thesis using c m by (simp add: fire_timer_def engine_inv_def)
qed

lemma cancel_pending_inv:
  assumes "engine_inv s" and "cancel_pending cid s = (evs, s')"
  shows "engine_inv s'"
  using assms cancel_inv [OF assms(1), of cid]
  by (auto simp add: cancel_pending_def split: if_splits)

lemma scan_inv:
  "engine_inv s \<Longrightarrow> scan cfg cis running s = (evs, t, s') \<Longrightarrow> engine_inv s'"
proof (induction cis arbitrary: running s evs t s')
  case Nil
  then show ?case
    using schedule_stopped_inv [OF Nil.prems(1), of cfg running "managedRecords s"]
    by (auto split: prod.splits)
next
  case (Cons ci cis)
  let ?cid = "take 12 (ci_Id ci)"
  consider (stopped) "ci_State ci \<noteq> ''running''"
    | (managed) "ci_State ci = ''running''" "hasRecords s ?cid"
    | (new) "ci_State ci = ''running''" "\<not> hasRecords s ?cid"
    by blast
  then show ?case
  proof cases
    case stopped
    then show ?thesis using Cons by simp
  next
    case managed
    obtain e1 s1 where c: "cancel_pending ?cid s = (e1, s1)" by (metis prod.exhaust)
    obtain e2 t2 s2 where sc: "scan cfg cis (set_add running ?cid) s1 = (e2, t2, s2)"
      by (metis prod_cases3)
    have "s' = s2" using Cons.prems(2) managed c sc by (simp add: Let_def)
    then show ?thesis
      using Cons.IH [OF cancel_pending_inv [OF Cons.prems(1) c] sc] by simp
  next
    case new
    then have "s' = s" using Cons.prems(2) by (simp add: Let_def)
    then show ?thesis using Cons.prems(1) by simp
  qed
qed

lemma finish_container_inv:
  assumes "engine_inv s" and "finish_container cfg ci cis running s = (evs, t, s')"
  shows "engine_inv s'"
proof -
  obtain e1 s1 where c: "cancel_pending (take 12 (ci_Id ci)) s = (e1, s1)" by (metis prod.exhaust)
  obtain e2 t2 s2 where sc: "scan cfg cis running s1 = (e2, t2, s2)" by (metis prod_cases3)
  have "s' = s2" using assms(2) c sc by (simp add: finish_container_def)
  then show ?thesis using scan_inv [OF cancel_pending_inv [OF assms(1) c] sc] by simp
qed

lemma engine_inv_requests: "engine_inv s \<Longrightarrow> engine_inv (s\<lparr>requests := n\<rparr>)"
  by (simp add: engine_inv_def)

lemma engine_inv_set_record:
  "engine_inv s \<Longrightarrow> engine_inv (s\<lparr>managedRecords := jsmap_set k v (managedRecords s)\<rparr>)"
  by (simp add: engine_inv_def jsmap_set_distinct)

lemma hosts_loop_inv:
  "engine_inv s \<Longrightarrow> hosts_loop cfg reg cid hs ci cis running s = (evs, t, s') \<Longrightarrow> engine_inv s'"
proof (induction hs arbitrary: s evs t s')
  case Nil
  then show ?case using finish_container_inv by simp
next
  case (Cons host hs)
  obtain e' t' s'' where h: "hosts_loop cfg reg cid hs ci cis running s = (e', t', s'')"
    by (metis prod_cases3)
  have "s' = s'' \<or> s' = s\<lparr>requests := Suc (requests s)\<rparr>"
    using Cons.prems(2) h by (auto simp add: Let_def split: if_splits)
  then show ?case
    using Cons.IH [OF Cons.prems(1) h] engine_inv_requests [OF Cons.prems(1)] by auto
qed

lemma resume_inv:
  assumes i: "engine_inv s" and r: "resume cfg dk reg t s = (evs, t', s')"
  shows "engine_inv s'"
proof (cases t)
  case AwaitListing
  then show ?thesis
    using i r scan_inv [OF i] by (auto simp add: resume_def split: sum.splits)
next
  case (AwaitInspect ci cis running)
  then show ?thesis
    using r finish_container_inv [OF i] hosts_loop_inv [OF i]
    by (auto simp add: resume_def Let_def split: sum.splits if_splits prod.splits)
next
  case (AwaitCreate cid host dmn sub res hs ci cis running)
  then show ?thesis
    using r hosts_loop_inv [OF i] hosts_loop_inv [OF engine_inv_set_record [OF i]]
    by (auto simp add: resume_def split: sum.splits prod.splits)
next
  case TickDone
  then show ?thesis using i r by (simp add: resume_def)
qed

lemma distinct_all_equal: "distinct xs \<Longrightarrow> \<forall>x \<in> set xs. x = a \<Longrightarrow> length xs \<le> 1"
  by (cases xs; cases "tl xs") auto

text \<open>
  Under the invariant at most one timer is armed for each container id, and the armed timers
  are exactly the entries of the pending-deletion table.
\<close>

lemma engine_inv_one_timer:
  assumes "engine_inv s"
  shows "(\<forall>c. length (filter (\<lambda>p. snd p = c) (timers s)) \<le> 1)
       \<and> (\<forall>t c. (t, c) \<in> set (timers s) \<longleftrightarrow> (c, t) \<in> set (deletePendingRecords s))"
proof -
  have i: "timers_inv (deletePendingRecords s) (timers s) (next_timer s)"
    using assms by (simp add: engine_inv_def)
  have b: "\<And>t c. (t, c) \<in> set (timers s) \<longleftrightarrow> (c, t) \<in> set (deletePendingRecords s)"
    using i by (auto simp add: timers_inv_def dest!: map_of_SomeD)
  have c: "length (filter (\<lambda>p. snd p = c) (timers s)) \<le> 1" for c
  proof (cases "map_of (deletePendingRecords s) c")
    case None
    then have "filter (\<lambda>p. snd p = c) (timers s) = []"
      using i by (auto simp add: timers_inv_def filter_empty_conv)
    then show ?thesis by simp
  next
    case (Some t)
    have "distinct (filter (\<lambda>p. snd p = c) (timers s))"
      using i by (auto simp add: timers_inv_def distinct_map)
    moreover have "\<forall>x \<in> set (filter (\<lambda>p. snd p = c) (timers s)). x = (t, c)"
      using i Some by (auto simp add: timers_inv_def)
    ultimately show ?thesis by (rule distinct_all_equal)
  qed
  show ?thesis using b c by blast
qed

section \<open>Two ticks in succession\<close>

lemma create_for_host_silent:
  assumes "host_requests cfg host = []" and "create_for_host cfg reg cid host s = (evs, s')"
  shows "s' = s"
proof -
  have "length (split_dot host) < 2 \<or> length (split_dot host) = 2 \<or> spec_subdomain host = []"
    using assms(1) by (auto simp add: host_requests_def split: if_splits)
  then show ?thesis
    using assms(2)
    by (auto simp add: create_for_host_def Let_def js_slice_leading truthy_def spec_subdomain_def
        split: if_splits)
qed

lemma create_for_hosts_silent:
  "concat (map (host_requests cfg) hs) = [] \<Longrightarrow> create_for_hosts cfg reg cid hs s = (evs, s')
     \<Longrightarrow> s' = s"
proof (induction hs arbitrary: s evs s')
  case Nil
  then show ?case by simp
next
  case (Cons h hs)
  obtain e1 s1 where a: "create_for_host cfg reg cid h s = (e1, s1)" by (metis prod.exhaust)
  obtain e2 s2 where b: "create_for_hosts cfg reg cid hs s1 = (e2, s2)" by (metis prod.exhaust)
  have h: "host_requests cfg h = []" and hs: "concat (map (host_requests cfg) hs) = []"
    using Cons.prems(1) by simp_all
  have "s1 = s" using create_for_host_silent [OF h a] .
  moreover have "s2 = s1" using Cons.IH [OF hs b] .
  moreover have "s' = s2" using Cons.prems(2) a b by simp
  ultimately show ?case by simp
qed

lemma createDNSRecordsForContainer_silent:
  assumes "container_requests cfg dk full_id = []"
    and "createDNSRecordsForContainer cfg dk reg full_id s = (evs, s')"
  shows "s' = s \<and> requests_of evs = []"
proof -
  have "requests_of evs = []"
    using createDNSRecordsForContainer_requests [of cfg dk reg full_id s] assms by simp
  moreover have "s' = s"
    using assms create_for_hosts_silent
    by (auto simp add: createDNSRecordsForContainer_def container_requests_def Let_def
        split: sum.splits if_splits)
  ultimately show ?thesis by simp
qed

lemma process_container_noop:
  assumes st: "settled cfg dk s ci"
    and np: "ci_State ci = ''running'' \<Longrightarrow> \<not> jsmap_has (deletePendingRecords s) (take 12 (ci_Id ci))"
    and p: "process_container cfg dk reg ci (running, s) = (evs, running', s')"
  shows "s' = s \<and> requests_of evs = [] \<and> set running' = set running \<union> set (running_ids [ci])"
proof (cases "ci_State ci = ''running''")
  case False
  then show ?thesis using p by (simp add: process_container_def running_ids_def)
next
  case True
  let ?cid = "take 12 (ci_Id ci)"
  obtain e1 s1 where c: "(if \<not> hasRecords s ?cid
           then createDNSRecordsForContainer cfg dk reg (ci_Id ci) s else ([], s)) = (e1, s1)"
    by (metis prod.exhaust)
  have s1: "s1 = s \<and> requests_of e1 = []"
  proof (cases "hasRecords s ?cid")
    case True
    then show ?thesis using c by simp
  next
    case False
    then have "container_requests cfg dk (ci_Id ci) = []"
      using st True by (simp add: settled_def)
    then show ?thesis using createDNSRecordsForContainer_silent c False by auto
  qed
  have "evs = e1 \<and> running' = set_add running ?cid \<and> s' = s1"
    using p True c np s1 by (simp add: process_container_def Let_def)
  then show ?thesis using s1 True by (auto simp add: running_ids_def set_add_def)
qed

lemma running_ids_Cons: "set (running_ids (ci # cis)) = set (running_ids [ci]) \<union> set (running_ids cis)"
  by (simp add: running_ids_def)

lemma process_containers_noop:
  "list_all (settled cfg dk s) cis \<Longrightarrow>
   \<forall>c \<in> set (running_ids cis). \<not> jsmap_has (deletePendingRecords s) c \<Longrightarrow>
   process_containers cfg dk reg cis (running, s) = (evs, running', s') \<Longrightarrow>
   s' = s \<and> requests_of evs = [] \<and> set running' = set running \<union> set (running_ids cis)"
proof (induction cis arbitrary: running evs running' s')
  case Nil
  then show ?case by (simp add: running_ids_def)
next
  case (Cons ci cis)
  obtain e1 r1 s1 where a: "process_container cfg dk reg ci (running, s) = (e1, r1, s1)"
    by (metis prod_cases3)
  obtain e2 r2 s2 where b: "process_containers cfg dk reg cis (r1, s1) = (e2, r2, s2)"
    by (metis prod_cases3)
  have st: "settled cfg dk s ci" and sts: "list_all (settled cfg dk s) cis"
    using Cons.prems(1) by simp_all
  have np: "ci_State ci = ''running'' \<Longrightarrow> \<not> jsmap_has (deletePendingRecords s) (take 12 (ci_Id ci))"
    using Cons.prems(2) by (simp add: running_ids_def)
  have nps: "\<forall>c \<in> set (running_ids cis). \<not> jsmap_has (deletePendingRecords s) c"
    using Cons.prems(2) running_ids_Cons [of ci cis] by auto
  note x = process_container_noop [OF st np a]
  then have b': "process_containers cfg dk reg cis (r1, s) = (e2, r2, s2)" using b by simp
  note y = Cons.IH [OF sts nps b']
  have z: "evs = e1 @ e2" "running' = r2" "s' = s2" using Cons.prems(3) a b by simp_all
  have "s' = s" using z y by simp
  moreover have "requests_of evs = []" using z x y by simp
  moreover have "set running' = set running \<union> set (running_ids (ci # cis))"
    using z x y running_ids_Cons [of ci cis] by (simp add: Un_assoc)
  ultimately show ?case by simp
qed

lemma schedule_stopped_noop:
  "\<forall>kr \<in> set krs. containerId (snd kr) \<in> set running
                    \<or> jsmap_has (deletePendingRecords s) (containerId (snd kr)) \<Longrightarrow>
   schedule_stopped cfg running krs s = ([], s)"
  by (induction krs) auto


lemma create_for_host_frame:
  "create_for_host cfg reg cid host s = (evs, s') \<Longrightarrow>
     deletePendingRecords s' = deletePendingRecords s \<and> timers s' = timers s
     \<and> next_timer s' = next_timer s"
  by (auto simp add: create_for_host_def Let_def
      dest!: createCNAMERecord_fields split: if_splits prod.splits sum.splits)

lemma create_for_hosts_frame:
  "create_for_hosts cfg reg cid hs s = (evs, s') \<Longrightarrow>
     deletePendingRecords s' = deletePendingRecords s \<and> timers s' = timers s
     \<and> next_timer s' = next_timer s"
proof (induction hs arbitrary: s evs s')
  case Nil
  then show ?case by simp
next
  case (Cons h hs)
  obtain e1 s1 where a: "create_for_host cfg reg cid h s = (e1, s1)" by (metis prod.exhaust)
  obtain e2 s2 where b: "create_for_hosts cfg reg cid hs s1 = (e2, s2)" by (metis prod.exhaust)
  have "s' = s2" using Cons.prems a b by simp
  then show ?case using create_for_host_frame [OF a] Cons.IH [OF b] by simp
qed

lemma createDNSRecordsForContainer_frame:
  "createDNSRecordsForContainer cfg dk reg full_id s = (evs, s') \<Longrightarrow>
     deletePendingRecords s' = deletePendingRecords s \<and> timers s' = timers s
     \<and> next_timer s' = next_timer s"
  using create_for_hosts_frame
  by (auto simp add: createDNSRecordsForContainer_def Let_def split: sum.splits if_splits)

lemma process_container_post:
  assumes p: "process_container cfg dk reg ci (running, s) = (evs, running', s')"
  shows "set running' = set running \<union> set (running_ids [ci])
       \<and> set (map fst (deletePendingRecords s')) \<subseteq> set (map fst (deletePendingRecords s))
       \<and> (ci_State ci = ''running'' \<longrightarrow> \<not> jsmap_has (deletePendingRecords s') (take 12 (ci_Id ci)))"
proof (cases "ci_State ci = ''running''")
  case False
  then show ?thesis using p by (simp add: process_container_def running_ids_def)
next
  case True
  let ?cid = "take 12 (ci_Id ci)"
  obtain e1 s1 where c: "(if \<not> hasRecords s ?cid
           then createDNSRecordsForContainer cfg dk reg (ci_Id ci) s else ([], s)) = (e1, s1)"
    by (metis prod.exhaust)
  have f: "deletePendingRecords s1 = deletePendingRecords s"
    using c createDNSRecordsForContainer_frame by (auto split: if_splits)
  have r: "running' = set_add running ?cid"
    using p True c by (simp add: process_container_def Let_def split: if_splits)
  have d: "deletePendingRecords s' =
             (if jsmap_has (deletePendingRecords s) ?cid
              then jsmap_delete ?cid (deletePendingRecords s) else deletePendingRecords s)"
    using p True c f by (auto simp add: process_container_def Let_def split: if_splits)
  show ?thesis
    using r d True by (auto simp add: running_ids_def set_add_def jsmap_has_def jsmap_delete_def)
qed

lemma process_containers_post:
  "\<forall>c \<in> set running. \<not> jsmap_has (deletePendingRecords s) c \<Longrightarrow>
   process_containers cfg dk reg cis (running, s) = (evs, running', s') \<Longrightarrow>
   set running' = set running \<union> set (running_ids cis)
   \<and> (\<forall>c \<in> set running'. \<not> jsmap_has (deletePendingRecords s') c)"
proof (induction cis arbitrary: running s evs running' s')
  case Nil
  then show ?case by (simp add: running_ids_def)
next
  case (Cons ci cis)
  obtain e1 r1 s1 where a: "process_container cfg dk reg ci (running, s) = (e1, r1, s1)"
    by (metis prod_cases3)
  obtain e2 r2 s2 where b: "process_containers cfg dk reg cis (r1, s1) = (e2, r2, s2)"
    by (metis prod_cases3)
  note x = process_container_post [OF a]
  have n1: "\<forall>c \<in> set r1. \<not> jsmap_has (deletePendingRecords s1) c"
  proof
    fix c assume "c \<in> set r1"
    then consider "c \<in> set running" | "c \<in> set (running_ids [ci])" using x by auto
    then show "\<not> jsmap_has (deletePendingRecords s1) c"
    proof cases
      case 1
      then have "\<not> jsmap_has (deletePendingRecords s) c" using Cons.prems(1) by simp
      then show ?thesis using x by (auto simp add: jsmap_has_def)
    next
      case 2
      then show ?thesis using x by (auto simp add: running_ids_def split: if_splits)
    qed
  qed
  note y = Cons.IH [OF n1 b]
  have z: "running' = r2" "s' = s2" using Cons.prems(2) a b by simp_all
  have "set running' = set running \<union> set (running_ids (ci # cis))"
    using z x y running_ids_Cons [of ci cis] by (simp add: Un_assoc)
  then show ?case using y z by simp
qed

lemma schedule_stopped_post:
  "schedule_stopped cfg running krs s = (evs, s') \<Longrightarrow>
     managedRecords s' = managedRecords s
   \<and> set (map fst (deletePendingRecords s)) \<subseteq> set (map fst (deletePendingRecords s'))
   \<and> ((\<forall>c \<in> set running. \<not> jsmap_has (deletePendingRecords s) c)
        \<longrightarrow> (\<forall>c \<in> set running. \<not> jsmap_has (deletePendingRecords s') c))
   \<and> (\<forall>kr \<in> set krs. containerId (snd kr) \<in> set running
                        \<or> jsmap_has (deletePendingRecords s') (containerId (snd kr)))"
proof (induction krs arbitrary: s evs s')
  case Nil
  then show ?case by simp
next
  case (Cons kr krs)
  let ?c = "containerId (snd kr)"
  show ?case
  proof (cases "?c \<notin> set running \<and> \<not> jsmap_has (deletePendingRecords s) ?c")
    case False
    then have "schedule_stopped cfg running krs s = (evs, s')" using Cons.prems by auto
    from Cons.IH [OF this] show ?thesis using False by (auto simp add: jsmap_has_def)
  next
    case True
    obtain e1 s1 where a: "scheduleRecordDeletion cfg ?c s = (e1, s1)" by (metis prod.exhaust)
    obtain e2 s2 where b: "schedule_stopped cfg running krs s1 = (e2, s2)" by (metis prod.exhaust)
    have z: "s' = s2" using Cons.prems True a b by simp
    note f = scheduleRecordDeletion_fields [OF a]
    have k1: "set (map fst (deletePendingRecords s1)) = insert ?c (set (map fst (deletePendingRecords s)))"
      using f jsmap_set_keys [of ?c "next_timer s" "deletePendingRecords s"] by simp
    note y = Cons.IH [OF b]
    show ?thesis
      using y z k1 f True by (auto simp add: jsmap_has_def)
  qed
qed

text \<open>
  Claim C1 (tick idempotence), amended. Take the state \<open>s1\<close> left by a completed tick from
  any state, and run a second tick against the same runtime answers (the registrar may
  answer differently). If every running container of the listing is settled in \<open>s1\<close>, the
  second tick sends no request to the registrar and leaves the whole state as it was: both
  tables, the armed timers, and the next timer handle.
\<close>

theorem tick_idempotent:
  assumes t1: "monitorContainers cfg dk reg1 s0 = (r1, evs1, s1)"
    and st: "all_running_settled cfg dk s1"
    and t2: "monitorContainers cfg dk reg2 s1 = (r2, evs2, s2)"
  shows "requests_of evs2 = [] \<and> s2 = s1"
proof (cases "listContainers dk")
  case (Inl e)
  then show ?thesis using t2 by (auto simp add: monitorContainers_def monitorContainers_try_def)
next
  case (Inr cis)
  obtain a1 run1 sa where p1: "process_containers cfg dk reg1 cis ([], s0) = (a1, run1, sa)"
    by (metis prod_cases3)
  obtain b1 sb where q1: "schedule_stopped cfg run1 (managedRecords sa) sa = (b1, sb)"
    by (metis prod.exhaust)
  have s1: "s1 = sb"
    using t1 Inr p1 q1 by (simp add: monitorContainers_def monitorContainers_try_def)
  have x: "set run1 = set (running_ids cis)"
        "\<forall>c \<in> set run1. \<not> jsmap_has (deletePendingRecords sa) c"
    using process_containers_post [OF _ p1] by simp_all
  note y = schedule_stopped_post [OF q1]
  have m: "managedRecords s1 = managedRecords sa" using y s1 by simp
  have np: "\<forall>c \<in> set (running_ids cis). \<not> jsmap_has (deletePendingRecords s1) c"
    using x y s1 by simp
  have al: "\<forall>kr \<in> set (managedRecords s1). containerId (snd kr) \<in> set (running_ids cis)
                \<or> jsmap_has (deletePendingRecords s1) (containerId (snd kr))"
    using x y s1 m by simp
  have sts: "list_all (settled cfg dk s1) cis"
    using st Inr by (simp add: all_running_settled_def)
  obtain a2 run2 sc where p2: "process_containers cfg dk reg2 cis ([], s1) = (a2, run2, sc)"
    by (metis prod_cases3)
  note u = process_containers_noop [OF sts np p2]
  have "schedule_stopped cfg run2 (managedRecords s1) s1 = ([], s1)"
    using schedule_stopped_noop [of "managedRecords s1" run2 s1 cfg] al u by simp
  then have "monitorContainers cfg dk reg2 s1 = (None, a2, s1)"
    using Inr p2 u by (simp add: monitorContainers_def monitorContainers_try_def)
  then show ?thesis using t2 u by simp
qed


theorem tick_idempotent_witness:
  "all_running_settled cfg0 (two_containers ''exited'') s_two_stopped
   \<and> timers s_two_stopped = [(0, ''fedcba987654'')]
   \<and> requests_of (fst (snd (monitorContainers cfg0 (two_containers ''exited'') reg_reject s_two_stopped))) = []
   \<and> snd (snd (monitorContainers cfg0 (two_containers ''exited'') reg_reject s_two_stopped)) = s_two_stopped"
proof -
  let ?dk = "two_containers ''exited''"
  have t1: "monitorContainers cfg0 ?dk reg_accept s_two
      = (fst (monitorContainers cfg0 ?dk reg_accept s_two),
         fst (snd (monitorContainers cfg0 ?dk reg_accept s_two)), s_two_stopped)"
    by (simp add: s_two_stopped_def)
  have st: "all_running_settled cfg0 ?dk s_two_stopped"
    by code_simp
  have t2: "monitorContainers cfg0 ?dk reg_reject s_two_stopped
      = (fst (monitorContainers cfg0 ?dk reg_reject s_two_stopped),
         fst (snd (monitorContainers cfg0 ?dk reg_reject s_two_stopped)),
         snd (snd (monitorContainers cfg0 ?dk reg_reject s_two_stopped)))"
    by simp
  have tm: "timers s_two_stopped = [(0, ''fedcba987654'')]"
    by code_simp
  show ?thesis using tick_idempotent [OF t1 st t2] st tm by simp
qed

text \<open>
  Claim C1 as stated fails when a creation request of the first tick was rejected: the
  container is then not represented in the table, and the second tick, with the listing
  unchanged, sends the request again (and inserts the record when the registrar accepts).
\<close>

theorem tick_retries_failed_create:
  "requests_of (fst (snd (monitorContainers cfg0 (one_container ''running'' ''Host(app.example.com)'')
                            reg_accept s_create_failed)))
     = [ReqCreate ''example.com'' ''app'' ''srv.example.net'' 3600]
   \<and> managedRecords s_create_failed = []
   \<and> managedRecords (snd (snd (monitorContainers cfg0
                                  (one_container ''running'' ''Host(app.example.com)'')
                                  reg_accept s_create_failed)))
       = [(''0123456789ab-app.example.com'',
           \<lparr>recordId = 101, hostname = ''app.example.com'', domain = ''example.com'',
            subdomain = ''app'', containerId = ''0123456789ab''\<rparr>)]"
  by code_simp

section \<open>A tick without failed creations settles every container\<close>

text \<open>
  The condition of the idempotence theorem holds after every tick in which no creation
  request was rejected, when the runtime is consistent.
\<close>

lemma hasRecords_iff:
  "hasRecords s c \<longleftrightarrow> (\<exists>k \<in> fst ` set (managedRecords s). starts_with k c)"
  by (auto simp add: hasRecords_def list_ex_iff)

lemma hasRecords_mono:
  "fst ` set (managedRecords s) \<subseteq> fst ` set (managedRecords s') \<Longrightarrow>
   hasRecords s c \<Longrightarrow> hasRecords s' c"
  unfolding hasRecords_iff by blast

lemma hasRecords_key:
  "cid @ rest \<in> fst ` set (managedRecords s) \<Longrightarrow> hasRecords s cid"
  unfolding hasRecords_iff by (rule bexI [where x = "cid @ rest"]) (simp_all add: starts_with_def)

lemma jsmap_set_keys_image: "fst ` set (jsmap_set k v m) = insert k (fst ` set m)"
  using jsmap_set_keys [of k v m] by simp

lemma create_for_host_keys:
  assumes c: "create_for_host cfg reg cid host s = (evs, s')"
  shows "fst ` set (managedRecords s) \<subseteq> fst ` set (managedRecords s')
       \<and> (host_requests cfg host \<noteq> [] \<and> (\<forall>ev \<in> set evs. \<not> failed_create ev)
            \<longrightarrow> cid @ ''-'' @ host \<in> fst ` set (managedRecords s'))"
proof (cases "host_requests cfg host = []")
  case True
  then show ?thesis using create_for_host_silent [OF True c] by simp
next
  case False
  then have v: "\<not> length (split_dot host) < 2" "truthy (join_dot (js_slice 0 (- 2) (split_dot host)))"
    by (auto simp add: host_requests_def js_slice_leading spec_subdomain_def truthy_def
        split: if_splits)
  let ?dmn = "join_dot (js_slice (- 2) (int (length (split_dot host))) (split_dot host))"
  let ?sub = "join_dot (js_slice 0 (- 2) (split_dot host))"
  show ?thesis
  proof (cases "post_record reg (requests s) ?dmn ?sub (js_or (targetDomain cfg) host) 3600")
    case (Inl e)
    then have "s' = s\<lparr>requests := Suc (requests s)\<rparr>"
      and "CreateCNAME ?dmn ?sub (js_or (targetDomain cfg) host) 3600 (Inl e) \<in> set evs"
      using c v by (auto simp add: create_for_host_def Let_def createCNAMERecord_def)
    then show ?thesis by force
  next
    case (Inr rid)
    then have "managedRecords s' = jsmap_set (cid @ ''-'' @ host)
                 \<lparr>recordId = rid, hostname = host, domain = ?dmn, subdomain = ?sub,
                  containerId = cid\<rparr> (managedRecords s)"
      using c v by (auto simp add: create_for_host_def Let_def createCNAMERecord_def)
    then show ?thesis by (auto simp add: jsmap_set_keys_image)
  qed
qed

lemma create_for_hosts_keys:
  "create_for_hosts cfg reg cid hs s = (evs, s') \<Longrightarrow>
     fst ` set (managedRecords s) \<subseteq> fst ` set (managedRecords s')
   \<and> (concat (map (host_requests cfg) hs) \<noteq> [] \<and> (\<forall>ev \<in> set evs. \<not> failed_create ev)
        \<longrightarrow> (\<exists>h. cid @ ''-'' @ h \<in> fst ` set (managedRecords s')))"
proof (induction hs arbitrary: s evs s')
  case Nil
  then show ?case by simp
next
  case (Cons h hs)
  obtain e1 s1 where a: "create_for_host cfg reg cid h s = (e1, s1)" by (metis prod.exhaust)
  obtain e2 s2 where b: "create_for_hosts cfg reg cid hs s1 = (e2, s2)" by (metis prod.exhaust)
  have z: "evs = e1 @ e2" "s' = s2" using Cons.prems a b by simp_all
  note x = create_for_host_keys [OF a]
  note y = Cons.IH [OF b]
  have mono: "fst ` set (managedRecords s) \<subseteq> fst ` set (managedRecords s')"
    using x y z by blast
  have "\<exists>h'. cid @ ''-'' @ h' \<in> fst ` set (managedRecords s')"
    if n: "concat (map (host_requests cfg) (h # hs)) \<noteq> []"
      and ok: "\<forall>ev \<in> set evs. \<not> failed_create ev"
  proof (cases "host_requests cfg h = []")
    case True
    then have "concat (map (host_requests cfg) hs) \<noteq> []" using n by simp
    then show ?thesis using y ok z by auto
  next
    case False
    then have "cid @ ''-'' @ h \<in> fst ` set (managedRecords s1)" using x ok z by auto
    then have "cid @ ''-'' @ h \<in> fst ` set (managedRecords s')" using y z by blast
    then show ?thesis by blast
  qed
  then show ?case using mono by blast
qed

lemma createDNSRecordsForContainer_keys:
  assumes c: "createDNSRecordsForContainer cfg dk reg full_id s = (evs, s')"
  shows "fst ` set (managedRecords s) \<subseteq> fst ` set (managedRecords s')
       \<and> (inspect_consistent dk \<and> (\<forall>ev \<in> set evs. \<not> failed_create ev)
            \<longrightarrow> hasRecords s' (take 12 full_id) \<or> container_requests cfg dk full_id = [])"
proof (cases "container_requests cfg dk full_id = []")
  case True
  then show ?thesis using createDNSRecordsForContainer_silent [OF True c] by simp
next
  case False
  then obtain info where i: "inspect dk full_id = Inr info"
    and en: "map_of (labels_of info) ''traefik.enable'' = Some ''true''"
    and hs: "concat (map (host_requests cfg) (extractTraefikHosts (labels_of info))) \<noteq> []"
    by (auto simp add: container_requests_def split: sum.splits if_splits)
  have ne: "extractTraefikHosts (labels_of info) \<noteq> []" using hs by auto
  have "create_for_hosts cfg reg (take 12 (cd_Id info)) (extractTraefikHosts (labels_of info)) s
          = (evs, s')"
    using c i en ne by (simp add: createDNSRecordsForContainer_def Let_def)
  note k = create_for_hosts_keys [OF this]
  have "hasRecords s' (take 12 full_id)"
    if ic: "inspect_consistent dk" and ok: "\<forall>ev \<in> set evs. \<not> failed_create ev"
  proof -
    have "take 12 (cd_Id info) = take 12 full_id"
      using ic i by (simp add: inspect_consistent_def)
    then obtain h where "take 12 full_id @ ''-'' @ h \<in> fst ` set (managedRecords s')"
      using k hs ok by auto
    then show ?thesis by (rule hasRecords_key)
  qed
  then show ?thesis using k by blast
qed

lemma settled_mono:
  "fst ` set (managedRecords s) \<subseteq> fst ` set (managedRecords s') \<Longrightarrow>
   settled cfg dk s ci \<Longrightarrow> settled cfg dk s' ci"
  using hasRecords_mono by (auto simp add: settled_def)

lemma process_container_keys:
  assumes p: "process_container cfg dk reg ci (running, s) = (evs, running', s')"
  shows "fst ` set (managedRecords s) \<subseteq> fst ` set (managedRecords s')
       \<and> (inspect_consistent dk \<and> (\<forall>ev \<in> set evs. \<not> failed_create ev)
            \<longrightarrow> settled cfg dk s' ci)"
proof (cases "ci_State ci = ''running''")
  case False
  then show ?thesis using p by (simp add: process_container_def settled_def)
next
  case True
  let ?cid = "take 12 (ci_Id ci)"
  obtain e1 s1 where c: "(if \<not> hasRecords s ?cid
           then createDNSRecordsForContainer cfg dk reg (ci_Id ci) s else ([], s)) = (e1, s1)"
    by (metis prod.exhaust)
  have m: "managedRecords s' = managedRecords s1" and e: "set e1 \<subseteq> set evs"
    using p True c
    by (auto simp add: process_container_def Let_def clearTimeout_def split: if_splits option.splits)
  have k: "fst ` set (managedRecords s) \<subseteq> fst ` set (managedRecords s1)
       \<and> (inspect_consistent dk \<and> (\<forall>ev \<in> set e1. \<not> failed_create ev)
            \<longrightarrow> hasRecords s1 ?cid \<or> container_requests cfg dk (ci_Id ci) = [])"
  proof (cases "hasRecords s ?cid")
    case True
    then show ?thesis using c by auto
  next
    case False
    then show ?thesis using c createDNSRecordsForContainer_keys by auto
  qed
  have "hasRecords s' ?cid = hasRecords s1 ?cid" using m by (simp add: hasRecords_def)
  then show ?thesis using k m e by (auto simp add: settled_def)
qed

lemma process_containers_keys:
  "process_containers cfg dk reg cis (running, s) = (evs, running', s') \<Longrightarrow>
     fst ` set (managedRecords s) \<subseteq> fst ` set (managedRecords s')
   \<and> (inspect_consistent dk \<and> (\<forall>ev \<in> set evs. \<not> failed_create ev)
        \<longrightarrow> list_all (settled cfg dk s') cis)"
proof (induction cis arbitrary: running s evs running' s')
  case Nil
  then show ?case by simp
next
  case (Cons ci cis)
  obtain e1 r1 s1 where a: "process_container cfg dk reg ci (running, s) = (e1, r1, s1)"
    by (metis prod_cases3)
  obtain e2 r2 s2 where b: "process_containers cfg dk reg cis (r1, s1) = (e2, r2, s2)"
    by (metis prod_cases3)
  have z: "evs = e1 @ e2" "s' = s2" using Cons.prems a b by simp_all
  note x = process_container_keys [OF a]
  note y = Cons.IH [OF b]
  have mono: "fst ` set (managedRecords s) \<subseteq> fst ` set (managedRecords s')"
    using x y z by blast
  have "list_all (settled cfg dk s') (ci # cis)"
    if ic: "inspect_consistent dk" and ok: "\<forall>ev \<in> set evs. \<not> failed_create ev"
  proof -
    have "settled cfg dk s1 ci" using x ic ok z by auto
    then have "settled cfg dk s' ci" using settled_mono y z by blast
    moreover have "list_all (settled cfg dk s') cis" using y ic ok z by auto
    ultimately show ?thesis by simp
  qed
  then show ?case using mono by blast
qed

lemma successful_tick_settles:
  assumes t: "monitorContainers cfg dk reg s0 = (r, evs, s1)"
    and ok: "\<forall>ev \<in> set evs. \<not> failed_create ev"
    and ic: "inspect_consistent dk"
  shows "all_running_settled cfg dk s1"
proof (cases "listContainers dk")
  case (Inl e)
  then show ?thesis by (simp add: all_running_settled_def)
next
  case (Inr cis)
  obtain a1 run1 sa where p1: "process_containers cfg dk reg cis ([], s0) = (a1, run1, sa)"
    by (metis prod_cases3)
  obtain b1 sb where q1: "schedule_stopped cfg run1 (managedRecords sa) sa = (b1, sb)"
    by (metis prod.exhaust)
  have s1: "s1 = sb" "evs = a1 @ b1"
    using t Inr p1 q1 by (simp_all add: monitorContainers_def monitorContainers_try_def)
  have "list_all (settled cfg dk sa) cis"
    using process_containers_keys [OF p1] ok ic s1 by auto
  moreover have "managedRecords s1 = managedRecords sa"
    using schedule_stopped_post [OF q1] s1 by simp
  ultimately have "list_all (settled cfg dk s1) cis"
    by (simp add: settled_def hasRecords_def list_all_iff)
  then show ?thesis using Inr by (simp add: all_running_settled_def)
qed


section \<open>A tick run alone is the atomic tick\<close>

lemma completes_done: "completes cfg dk reg TickDone s ([], s)"
  unfolding completes_def by (rule exI [where x = 0]) simp

lemma completes_step:
  assumes "resume cfg dk reg t s = (e1, t1, s1)" and "completes cfg dk reg t1 s1 (e2, s')"
  shows "completes cfg dk reg t s (e1 @ e2, s')"
proof -
  obtain n where "run_alone cfg dk reg n t1 s1 = (e2, TickDone, s')"
    using assms(2) by (auto simp add: completes_def)
  then have "run_alone cfg dk reg (Suc n) t s = (e1 @ e2, TickDone, s')"
    using assms(1) by simp
  then show ?thesis unfolding completes_def by (intro exI [where x = "Suc n"]) simp
qed

lemma process_container_alt:
  "process_container cfg dk reg ci (running, s) =
     (if ci_State ci = ''running'' then
        (case (if \<not> hasRecords s (take 12 (ci_Id ci))
               then createDNSRecordsForContainer cfg dk reg (ci_Id ci) s else ([], s)) of
           (e1, s1) \<Rightarrow>
             (case cancel_pending (take 12 (ci_Id ci)) s1 of
                (e2, s2) \<Rightarrow> (e1 @ e2, set_add running (take 12 (ci_Id ci)), s2)))
      else ([], running, s))"
  by (simp add: process_container_def cancel_pending_def Let_def split: prod.splits)

lemma rest_of_tick_Cons:
  "rest_of_tick cfg dk reg (ci # cis) running s =
     (case process_container cfg dk reg ci (running, s) of
        (e1, r1, s1) \<Rightarrow> (case rest_of_tick cfg dk reg cis r1 s1 of (e2, s2) \<Rightarrow> (e1 @ e2, s2)))"
  by (simp add: rest_of_tick_def split: prod.splits)

lemma rest_of_tick_created:
  assumes "ci_State ci = ''running''" and "\<not> hasRecords s (take 12 (ci_Id ci))"
  shows "rest_of_tick cfg dk reg (ci # cis) running s =
     (case createDNSRecordsForContainer cfg dk reg (ci_Id ci) s of
        (e1, s1) \<Rightarrow>
          (case after_create cfg dk reg ci cis (set_add running (take 12 (ci_Id ci))) s1 of
             (e2, s2) \<Rightarrow> (e1 @ e2, s2)))"
  using assms by (simp add: rest_of_tick_Cons process_container_alt after_create_def split: prod.splits)

lemma finish_container_ok:
  assumes ok: "scan_ok cfg dk reg cis"
    and f: "finish_container cfg ci cis running s = (e1, t, s1)"
  shows "\<exists>e2. completes cfg dk reg t s1 (e2, snd (after_create cfg dk reg ci cis running s))
               \<and> e1 @ e2 = fst (after_create cfg dk reg ci cis running s)"
proof -
  obtain ec sc where c: "cancel_pending (take 12 (ci_Id ci)) s = (ec, sc)" by (metis prod.exhaust)
  obtain es ts ss where sc: "scan cfg cis running sc = (es, ts, ss)" by (metis prod_cases3)
  have z: "e1 = ec @ es" "t = ts" "s1 = ss"
    using f c sc by (simp_all add: finish_container_def)
  obtain e2 where e2: "completes cfg dk reg ts ss (e2, snd (rest_of_tick cfg dk reg cis running sc))"
      "es @ e2 = fst (rest_of_tick cfg dk reg cis running sc)"
    using ok sc unfolding scan_ok_def by blast
  have a: "after_create cfg dk reg ci cis running s
             = (ec @ fst (rest_of_tick cfg dk reg cis running sc), snd (rest_of_tick cfg dk reg cis running sc))"
    using c by (simp add: after_create_def split: prod.splits)
  show ?thesis using e2 z a by (intro exI [where x = e2]) simp
qed

lemma hosts_loop_ok:
  assumes ok: "scan_ok cfg dk reg cis"
  shows "hosts_loop cfg reg cid hs ci cis running s = (e1, t, s1) \<Longrightarrow>
         create_for_hosts cfg reg cid hs s = (eh, sh) \<Longrightarrow>
         \<exists>e2. completes cfg dk reg t s1 (e2, snd (after_create cfg dk reg ci cis running sh))
               \<and> e1 @ e2 = eh @ fst (after_create cfg dk reg ci cis running sh)"
proof (induction hs arbitrary: s e1 t s1 eh sh)
  case Nil
  then show ?case using finish_container_ok [OF ok] by simp
next
  case (Cons host hs)
  let ?parts = "split_dot host"
  let ?sub = "join_dot (js_slice 0 (- 2) ?parts)"
  let ?dmn = "join_dot (js_slice (- 2) (int (length ?parts)) ?parts)"
  let ?tgt = "js_or (targetDomain cfg) host"
  obtain ex sx where cx: "create_for_host cfg reg cid host s = (ex, sx)" by (metis prod.exhaust)
  obtain ey sy where cy: "create_for_hosts cfg reg cid hs sx = (ey, sy)" by (metis prod.exhaust)
  have eh: "eh = ex @ ey" "sh = sy" using Cons.prems(2) cx cy by simp_all
  show ?case
  proof (cases "length ?parts < 2 \<or> \<not> truthy ?sub")
    case True
    then obtain w where w: "ex = [Log Warn w]" "sx = s"
      using cx by (auto simp add: create_for_host_def Let_def split: if_splits)
    obtain e' t' s' where h: "hosts_loop cfg reg cid hs ci cis running s = (e', t', s')"
      by (metis prod_cases3)
    have z: "e1 = Log Warn w # e'" "t = t'" "s1 = s'"
      using Cons.prems(1) True h cx w
      by (auto simp add: create_for_host_def Let_def split: if_splits)
    obtain e2 where "completes cfg dk reg t' s' (e2, snd (after_create cfg dk reg ci cis running sy))"
        "e' @ e2 = ey @ fst (after_create cfg dk reg ci cis running sy)"
      using Cons.IH [OF h] cy w by blast
    then show ?thesis using z eh w by (intro exI [where x = e2]) simp
  next
    case False
    let ?res = "post_record reg (requests s) ?dmn ?sub ?tgt 3600"
    let ?s0 = "s\<lparr>requests := Suc (requests s)\<rparr>"
    have z: "e1 = [CreateCNAME ?dmn ?sub ?tgt 3600 ?res]"
        "t = AwaitCreate cid host ?dmn ?sub ?res hs ci cis running" "s1 = ?s0"
      using Cons.prems(1) False by (simp_all add: Let_def)
    show ?thesis
    proof (cases ?res)
      case (Inl e)
      let ?logs = "[Log Err (''Failed to create CNAME record: '' @ ?sub @ ''.'' @ ?dmn),
                    Log Err (''Failed to create DNS record for '' @ host)]"
      have x: "ex = CreateCNAME ?dmn ?sub ?tgt 3600 ?res # ?logs" "sx = ?s0"
        using cx False Inl by (simp_all add: create_for_host_def Let_def createCNAMERecord_def)
      obtain e' t' s' where h: "hosts_loop cfg reg cid hs ci cis running ?s0 = (e', t', s')"
        by (metis prod_cases3)
      obtain e2 where e2: "completes cfg dk reg t' s' (e2, snd (after_create cfg dk reg ci cis running sy))"
          "e' @ e2 = ey @ fst (after_create cfg dk reg ci cis running sy)"
        using Cons.IH [OF h] cy x by blast
      have r: "resume cfg dk reg t s1 = (?logs @ e', t', s')"
        using z Inl h by (simp add: resume_def)
      have "completes cfg dk reg t s1 ((?logs @ e') @ e2, snd (after_create cfg dk reg ci cis running sy))"
        using completes_step [OF r e2(1)] .
      then show ?thesis using z eh x e2(2) by (intro exI [where x = "?logs @ e' @ e2"]) simp
    next
      case (Inr rid)
      let ?logs = "[Log Info (''Created CNAME record: '' @ ?sub @ ''.'' @ ?dmn @ '' -> '' @ ?tgt),
                    Log Info ''DNS record created for container'']"
      let ?s1 = "?s0\<lparr>managedRecords :=
                      jsmap_set (cid @ ''-'' @ host)
                        \<lparr>recordId = rid, hostname = host, domain = ?dmn, subdomain = ?sub,
                         containerId = cid\<rparr> (managedRecords ?s0)\<rparr>"
      have x: "ex = CreateCNAME ?dmn ?sub ?tgt 3600 ?res # ?logs" "sx = ?s1"
        using cx False Inr by (simp_all add: create_for_host_def Let_def createCNAMERecord_def)
      obtain e' t' s' where h: "hosts_loop cfg reg cid hs ci cis running ?s1 = (e', t', s')"
        by (metis prod_cases3)
      obtain e2 where e2: "completes cfg dk reg t' s' (e2, snd (after_create cfg dk reg ci cis running sy))"
          "e' @ e2 = ey @ fst (after_create cfg dk reg ci cis running sy)"
        using Cons.IH [OF h] cy x by blast
      have r: "resume cfg dk reg t s1 = (?logs @ e', t', s')"
        using z Inr h by (simp add: resume_def)
      have "completes cfg dk reg t s1 ((?logs @ e') @ e2, snd (after_create cfg dk reg ci cis running sy))"
        using completes_step [OF r e2(1)] .
      then show ?thesis using z eh x e2(2) by (intro exI [where x = "?logs @ e' @ e2"]) simp
    qed
  qed
qed


lemma inspect_ok:
  assumes ok: "scan_ok cfg dk reg cis"
    and r: "resume cfg dk reg (AwaitInspect ci cis running) s = (e1, t, s1)"
    and c: "createDNSRecordsForContainer cfg dk reg (ci_Id ci) s = (ec, sc)"
  shows "\<exists>e2. completes cfg dk reg t s1 (e2, snd (after_create cfg dk reg ci cis running sc))
               \<and> e1 @ e2 = ec @ fst (after_create cfg dk reg ci cis running sc)"
proof (cases "inspect dk (ci_Id ci)")
  case (Inl e)
  obtain e' t' s' where f: "finish_container cfg ci cis running s = (e', t', s')"
    by (metis prod_cases3)
  have z: "e1 = Log Err ''Error processing container for DNS creation'' # e'" "t = t'" "s1 = s'"
    using r Inl f by (simp_all add: resume_def)
  have x: "ec = [Log Err ''Error processing container for DNS creation'']" "sc = s"
    using c Inl by (simp_all add: createDNSRecordsForContainer_def)
  obtain e2 where "completes cfg dk reg t' s' (e2, snd (after_create cfg dk reg ci cis running s))"
      "e' @ e2 = fst (after_create cfg dk reg ci cis running s)"
    using finish_container_ok [OF ok f] by blast
  then show ?thesis using z x by (intro exI [where x = e2]) simp
next
  case (Inr info)
  let ?labels = "labels_of info"
  let ?cid = "take 12 (cd_Id info)"
  show ?thesis
  proof (cases "map_of ?labels ''traefik.enable'' \<noteq> Some ''true''")
    case True
    have f: "finish_container cfg ci cis running s = (e1, t, s1)"
      using r Inr True by (simp add: resume_def)
    have x: "ec = []" "sc = s"
      using c Inr True by (simp_all add: createDNSRecordsForContainer_def)
    show ?thesis using finish_container_ok [OF ok f] x by simp
  next
    case en: False
    show ?thesis
    proof (cases "extractTraefikHosts ?labels = []")
      case True
      let ?w = "Log Warn (''No valid hosts found in Traefik labels for container '' @ ?cid)"
      obtain e' t' s' where f: "finish_container cfg ci cis running s = (e', t', s')"
        by (metis prod_cases3)
      have z: "e1 = ?w # e'" "t = t'" "s1 = s'"
        using r Inr en True f by (simp_all add: resume_def)
      have x: "ec = [?w]" "sc = s"
        using c Inr en True by (simp_all add: createDNSRecordsForContainer_def)
      obtain e2 where "completes cfg dk reg t' s' (e2, snd (after_create cfg dk reg ci cis running s))"
          "e' @ e2 = fst (after_create cfg dk reg ci cis running s)"
        using finish_container_ok [OF ok f] by blast
      then show ?thesis using z x by (intro exI [where x = e2]) simp
    next
      case False
      have h: "hosts_loop cfg reg ?cid (extractTraefikHosts ?labels) ci cis running s = (e1, t, s1)"
        using r Inr en False by (simp add: resume_def)
      have x: "create_for_hosts cfg reg ?cid (extractTraefikHosts ?labels) s = (ec, sc)"
        using c Inr en False by (simp add: createDNSRecordsForContainer_def)
      show ?thesis using hosts_loop_ok [OF ok h x] .
    qed
  qed
qed

lemma scan_all_ok: "scan_ok cfg dk reg cis"
proof (induction cis)
  case Nil
  show ?case
    unfolding scan_ok_def
  proof (intro allI impI)
    fix running s e1 t s1
    assume "scan cfg [] running s = (e1, t, s1)"
    then have "t = TickDone" "rest_of_tick cfg dk reg [] running s = (e1, s1)"
      by (auto simp add: rest_of_tick_def split: prod.splits)
    then show "\<exists>e2. completes cfg dk reg t s1 (e2, snd (rest_of_tick cfg dk reg [] running s))
                    \<and> e1 @ e2 = fst (rest_of_tick cfg dk reg [] running s)"
      using completes_done by (intro exI [where x = "[]"]) simp
  qed
next
  case (Cons ci cis)
  show ?case
    unfolding scan_ok_def
  proof (intro allI impI)
    fix running s e1 t s1
    assume sc: "scan cfg (ci # cis) running s = (e1, t, s1)"
    let ?cid = "take 12 (ci_Id ci)"
    let ?goal = "\<exists>e2. completes cfg dk reg t s1 (e2, snd (rest_of_tick cfg dk reg (ci # cis) running s))
                    \<and> e1 @ e2 = fst (rest_of_tick cfg dk reg (ci # cis) running s)"
    consider (stopped) "ci_State ci \<noteq> ''running''"
      | (managed) "ci_State ci = ''running''" "hasRecords s ?cid"
      | (new) "ci_State ci = ''running''" "\<not> hasRecords s ?cid"
      by blast
    then show ?goal
    proof cases
      case stopped
      then have a: "scan cfg cis running s = (e1, t, s1)" using sc by simp
      have b: "rest_of_tick cfg dk reg (ci # cis) running s = rest_of_tick cfg dk reg cis running s"
        using stopped by (simp add: rest_of_tick_Cons process_container_alt split: prod.splits)
      show ?thesis using Cons.IH a b unfolding scan_ok_def by simp
    next
      case managed
      have f: "finish_container cfg ci cis (set_add running ?cid) s = (e1, t, s1)"
        using sc managed by (simp add: finish_container_def Let_def)
      have b: "rest_of_tick cfg dk reg (ci # cis) running s
                 = after_create cfg dk reg ci cis (set_add running ?cid) s"
        using managed
        by (simp add: rest_of_tick_Cons process_container_alt after_create_def split: prod.splits)
      show ?thesis using finish_container_ok [OF Cons.IH f] b by simp
    next
      case new
      have z: "e1 = []" "t = AwaitInspect ci cis (set_add running ?cid)" "s1 = s"
        using sc new by (simp_all add: Let_def)
      obtain ec sc' where c: "createDNSRecordsForContainer cfg dk reg (ci_Id ci) s = (ec, sc')"
        by (metis prod.exhaust)
      obtain e' t' s' where r: "resume cfg dk reg t s1 = (e', t', s')"
        by (metis prod_cases3)
      let ?fin = "after_create cfg dk reg ci cis (set_add running ?cid) sc'"
      have r': "resume cfg dk reg (AwaitInspect ci cis (set_add running ?cid)) s = (e', t', s')"
        using r z by simp
      obtain e2 where e2: "completes cfg dk reg t' s' (e2, snd ?fin)" "e' @ e2 = ec @ fst ?fin"
        using inspect_ok [OF Cons.IH r' c] by blast
      have b: "rest_of_tick cfg dk reg (ci # cis) running s = (ec @ fst ?fin, snd ?fin)"
        using rest_of_tick_created [OF new, of cfg dk reg cis running] c by (simp split: prod.splits)
      have "completes cfg dk reg t s1 (e' @ e2, snd ?fin)"
        using completes_step [OF r e2(1)] .
      then show ?thesis using z e2(2) b by (intro exI [where x = "e' @ e2"]) simp
    qed
  qed
qed

text \<open>
  Resumed often enough with no other step in between, a tick that starts in state \<open>s\<close>
  produces the events and the state of \<open>monitorContainers\<close>.
\<close>

theorem tick_alone_is_atomic:
  "\<exists>n. run_alone cfg dk reg n AwaitListing s
          = (fst (snd (monitorContainers cfg dk reg s)), TickDone,
             snd (snd (monitorContainers cfg dk reg s)))"
proof (cases "listContainers dk")
  case (Inl e)
  then have "run_alone cfg dk reg (Suc 0) AwaitListing s
               = ([Log Err ''Error monitoring containers''], TickDone, s)"
    by (simp add: resume_def)
  then show ?thesis
    using Inl by (intro exI [where x = "Suc 0"])
      (simp add: monitorContainers_def monitorContainers_try_def)
next
  case (Inr cis)
  obtain e1 t s1 where sc: "scan cfg cis [] s = (e1, t, s1)" by (metis prod_cases3)
  have r: "resume cfg dk reg AwaitListing s = (e1, t, s1)"
    using Inr sc by (simp add: resume_def)
  obtain e2 where e2: "completes cfg dk reg t s1 (e2, snd (rest_of_tick cfg dk reg cis [] s))"
      "e1 @ e2 = fst (rest_of_tick cfg dk reg cis [] s)"
    using scan_all_ok [of cfg dk reg cis] sc unfolding scan_ok_def by blast
  have m: "monitorContainers cfg dk reg s
             = (None, fst (rest_of_tick cfg dk reg cis [] s), snd (rest_of_tick cfg dk reg cis [] s))"
    using Inr by (simp add: monitorContainers_def monitorContainers_try_def rest_of_tick_def
        split: prod.splits)
  have "completes cfg dk reg AwaitListing s (e1 @ e2, snd (rest_of_tick cfg dk reg cis [] s))"
    using completes_step [OF r e2(1)] .
  then show ?thesis using e2(2) m by (simp add: completes_def)
qed


section \<open>Overlapping ticks\<close>

lemma interleave_single:
  "interleave cfg dk reg (replicate n 0) [t] s =
     (case run_alone cfg dk reg n t s of (e, t', s') \<Rightarrow> (e, [t'], s'))"
  by (induction n arbitrary: t s) (auto split: prod.splits)

lemma process_containers_request_origin:
  "process_containers cfg dk reg cis (running, s) = (evs, running', s') \<Longrightarrow>
   q \<in> set (requests_of evs) \<Longrightarrow>
   \<exists>ci \<in> set cis. ci_State ci = ''running'' \<and> \<not> hasRecords s (take 12 (ci_Id ci))
                  \<and> q \<in> set (container_requests cfg dk (ci_Id ci))"
proof (induction cis arbitrary: running s evs running' s')
  case Nil
  then show ?case by simp
next
  case (Cons ci cis)
  obtain e1 r1 s1 where a: "process_container cfg dk reg ci (running, s) = (e1, r1, s1)"
    by (metis prod_cases3)
  obtain e2 r2 s2 where b: "process_containers cfg dk reg cis (r1, s1) = (e2, r2, s2)"
    by (metis prod_cases3)
  have z: "evs = e1 @ e2" using Cons.prems(1) a b by simp
  have k: "fst ` set (managedRecords s) \<subseteq> fst ` set (managedRecords s1)"
    using process_container_keys [OF a] by simp
  consider "q \<in> set (requests_of e1)" | "q \<in> set (requests_of e2)"
    using Cons.prems(2) z by auto
  then show ?case
  proof cases
    case 1
    then have "ci_State ci = ''running'' \<and> \<not> hasRecords s (take 12 (ci_Id ci))
                 \<and> q \<in> set (container_requests cfg dk (ci_Id ci))"
      using process_container_requests [of cfg dk reg ci running s] a
      by (auto split: if_splits)
    then show ?thesis by simp
  next
    case 2
    then obtain c where c: "c \<in> set cis" "ci_State c = ''running''"
        "\<not> hasRecords s1 (take 12 (ci_Id c))" "q \<in> set (container_requests cfg dk (ci_Id c))"
      using Cons.IH [OF b] by blast
    then have "\<not> hasRecords s (take 12 (ci_Id c))" using hasRecords_mono [OF k] by blast
    then show ?thesis using c by auto
  qed
qed

text \<open>
  Claim C9 (tick serialization), amended. Nothing serializes ticks. What holds for a tick
  that runs from its start to its end with no other step in between, neither another tick
  nor the callback of a deletion timer: every creation request it sends is one of the
  requests of a running container of its listing that has no entry in the managed-record
  table when the tick starts.
\<close>

theorem creates_only_for_unmanaged:
  "monitorContainers cfg dk reg s = (r, evs, s') \<Longrightarrow> q \<in> set (requests_of evs) \<Longrightarrow>
   \<exists>cis ci. listContainers dk = Inr cis \<and> ci \<in> set cis \<and> ci_State ci = ''running''
            \<and> \<not> hasRecords s (take 12 (ci_Id ci))
            \<and> q \<in> set (container_requests cfg dk (ci_Id ci))"
proof (cases "listContainers dk")
  case (Inl e)
  assume "monitorContainers cfg dk reg s = (r, evs, s')" "q \<in> set (requests_of evs)"
  then show ?thesis using Inl by (auto simp add: monitorContainers_def monitorContainers_try_def)
next
  case (Inr cis)
  assume t: "monitorContainers cfg dk reg s = (r, evs, s')" and q: "q \<in> set (requests_of evs)"
  obtain a1 run1 sa where p1: "process_containers cfg dk reg cis ([], s) = (a1, run1, sa)"
    by (metis prod_cases3)
  obtain b1 sb where q1: "schedule_stopped cfg run1 (managedRecords sa) sa = (b1, sb)"
    by (metis prod.exhaust)
  have "evs = a1 @ b1"
    using t Inr p1 q1 by (simp add: monitorContainers_def monitorContainers_try_def)
  moreover have "requests_of b1 = []"
    using schedule_stopped_requests [of cfg run1 "managedRecords sa" sa] q1 by simp
  ultimately have "q \<in> set (requests_of a1)" using q by simp
  from process_containers_request_origin [OF p1 this] show ?thesis using Inr by blast
qed

theorem creates_only_for_unmanaged_witness:
  "ReqCreate ''example.com'' ''app'' ''srv.example.net'' 3600
     \<in> set (requests_of (fst (snd (monitorContainers cfg0
                (one_container ''running'' ''Host(app.example.com)'') reg_accept init))))
   \<and> \<not> hasRecords init (take 12 ''0123456789abcdef'')
   \<and> requests_of (fst (snd (monitorContainers cfg0
                (one_container ''running'' ''Host(app.example.com)'') reg_accept s_created))) = []"
proof -
  let ?dk = "one_container ''running'' ''Host(app.example.com)''"
  let ?q = "ReqCreate ''example.com'' ''app'' ''srv.example.net'' 3600"
  have t: "monitorContainers cfg0 ?dk reg_accept init
      = (fst (monitorContainers cfg0 ?dk reg_accept init),
         fst (snd (monitorContainers cfg0 ?dk reg_accept init)),
         snd (snd (monitorContainers cfg0 ?dk reg_accept init)))"
    by simp
  have q: "?q \<in> set (requests_of (fst (snd (monitorContainers cfg0 ?dk reg_accept init))))"
    by code_simp
  have "\<exists>cis ci. listContainers ?dk = Inr cis \<and> ci \<in> set cis \<and> ci_State ci = ''running''
            \<and> \<not> hasRecords init (take 12 (ci_Id ci))
            \<and> ?q \<in> set (container_requests cfg0 ?dk (ci_Id ci))"
    using creates_only_for_unmanaged [OF t q] .
  then have "\<not> hasRecords init (take 12 ''0123456789abcdef'')"
    by (auto simp add: one_container_def)
  moreover have "requests_of (fst (snd (monitorContainers cfg0 ?dk reg_accept s_created))) = []"
    by code_simp
  ultimately show ?thesis using q by simp
qed

text \<open>
  Claim C9 as stated fails. Two ticks are started together on the empty tables, with one
  running container that declares one hostname, and their answers arrive in turn: both find
  the container without a record, both inspect it, and both send the creation request for
  the same container and hostname.
\<close>

theorem overlapping_ticks_create_twice:
  "requests_of (fst (interleave cfg0 (one_container ''running'' ''Host(app.example.com)'')
                       reg_accept [0, 1, 0, 1, 0, 1] [AwaitListing, AwaitListing] init))
     = [ReqCreate ''example.com'' ''app'' ''srv.example.net'' 3600,
        ReqCreate ''example.com'' ''app'' ''srv.example.net'' 3600]
   \<and> fst (snd (interleave cfg0 (one_container ''running'' ''Host(app.example.com)'')
                  reg_accept [0, 1, 0, 1, 0, 1] [AwaitListing, AwaitListing] init))
     = [TickDone, TickDone]"
  by code_simp

lemma successive_ticks_create_once:
  "requests_of (fst (interleave cfg0 (one_container ''running'' ''Host(app.example.com)'')
                       reg_accept [0, 0, 0, 1, 1, 1] [AwaitListing, AwaitListing] init))
     = [ReqCreate ''example.com'' ''app'' ''srv.example.net'' 3600]"
  by code_simp


section \<open>A callback run alone is the atomic callback\<close>

text \<open>
  Resumed often enough with no other step in between, the callback of a timer that fires in
  state \<open>s\<close> produces the events and the state of \<open>fire_timer\<close>.
\<close>

lemma delete_loop_alone:
  "delete_loop reg cid krs s = (e1, task, s1) \<Longrightarrow> delete_all reg krs s = (ea, sa) \<Longrightarrow>
   \<exists>n e2. run_delete reg n task s1
             = (e2, DeleteDone, sa\<lparr>deletePendingRecords := jsmap_delete cid (deletePendingRecords sa)\<rparr>)
          \<and> e1 @ e2 = ea"
proof (induction krs arbitrary: s e1 task s1 ea sa)
  case Nil
  then show ?case by (intro exI [where x = 0] exI [where x = "[]"]) auto
next
  case (Cons kr krs)
  let ?res = "delete_record reg (requests s) (domain (snd kr)) (recordId (snd kr))"
  let ?s0 = "s\<lparr>requests := Suc (requests s)\<rparr>"
  have z: "e1 = [DeleteRecord (domain (snd kr)) (recordId (snd kr)) ?res]"
      "task = AwaitDelete cid kr ?res krs" "s1 = ?s0"
    using Cons.prems(1) by (simp_all add: Let_def)
  obtain ex sx where dx: "delete_one reg kr s = (ex, sx)" by (metis prod.exhaust)
  obtain ey sy where dy: "delete_all reg krs sx = (ey, sy)" by (metis prod.exhaust)
  have ea: "ea = ex @ ey" "sa = sy" using Cons.prems(2) dx dy by simp_all
  obtain e' t' s' where l: "delete_loop reg cid krs sx = (e', t', s')" by (metis prod_cases3)
  obtain n e2 where r: "run_delete reg n t' s'
             = (e2, DeleteDone, sy\<lparr>deletePendingRecords := jsmap_delete cid (deletePendingRecords sy)\<rparr>)"
      "e' @ e2 = ey"
    using Cons.IH [OF l dy] by blast
  show ?case
  proof (cases ?res)
    case (Inl e)
    let ?logs = "[Log Err ''Failed to delete DNS record'',
                  Log Err ''Failed to delete DNS record for stopped container'']"
    have x: "ex = DeleteRecord (domain (snd kr)) (recordId (snd kr)) ?res # ?logs" "sx = ?s0"
      using dx Inl by (cases kr; simp add: delete_one_def deleteRecord_def Let_def)+
    have "resume_delete reg task s1 = (?logs @ e', t', s')"
      using z Inl l x by (simp add: resume_delete_def)
    then have "run_delete reg (Suc n) task s1
                 = ((?logs @ e') @ e2, DeleteDone,
                    sy\<lparr>deletePendingRecords := jsmap_delete cid (deletePendingRecords sy)\<rparr>)"
      using r by simp
    then show ?thesis
      using z ea x r(2) by (intro exI [where x = "Suc n"] exI [where x = "?logs @ e' @ e2"]) simp
  next
    case (Inr u)
    let ?logs = "[Log Info ''Deleted DNS record'',
                  Log Info ''DNS record deleted for stopped container'']"
    have x: "ex = DeleteRecord (domain (snd kr)) (recordId (snd kr)) ?res # ?logs"
        "sx = ?s0\<lparr>managedRecords := jsmap_delete (fst kr) (managedRecords ?s0)\<rparr>"
      using dx Inr by (cases kr; simp add: delete_one_def deleteRecord_def Let_def)+
    have "resume_delete reg task s1 = (?logs @ e', t', s')"
      using z Inr l x by (simp add: resume_delete_def)
    then have "run_delete reg (Suc n) task s1
                 = ((?logs @ e') @ e2, DeleteDone,
                    sy\<lparr>deletePendingRecords := jsmap_delete cid (deletePendingRecords sy)\<rparr>)"
      using r by simp
    then show ?thesis
      using z ea x r(2) by (intro exI [where x = "Suc n"] exI [where x = "?logs @ e' @ e2"]) simp
  qed
qed

lemma callback_alone_is_atomic:
  "\<exists>n e2. run_delete reg n (fst (snd (fire_start reg t s))) (snd (snd (fire_start reg t s)))
             = (e2, DeleteDone, snd (fire_timer reg t s))
          \<and> fst (fire_start reg t s) @ e2 = fst (fire_timer reg t s)"
proof (cases "map_of (timers s) t")
  case None
  then show ?thesis
    by (intro exI [where x = 0] exI [where x = "[]"]) (simp add: fire_start_def fire_timer_def)
next
  case (Some cid)
  let ?s0 = "clearTimeout t s"
  let ?krs = "filter (\<lambda>kr. containerId (snd kr) = cid) (managedRecords ?s0)"
  obtain e1 task s1 where l: "delete_loop reg cid ?krs ?s0 = (e1, task, s1)" by (metis prod_cases3)
  obtain ea sa where a: "delete_all reg ?krs ?s0 = (ea, sa)" by (metis prod.exhaust)
  have f: "fire_start reg t s = (e1, task, s1)" using Some l by (simp add: fire_start_def Let_def)
  have g: "fire_timer reg t s
             = (ea, sa\<lparr>deletePendingRecords := jsmap_delete cid (deletePendingRecords sa)\<rparr>)"
    using Some a by (simp add: fire_timer_def deletion_callback_def Let_def)
  show ?thesis using delete_loop_alone [OF l a] f g by simp
qed

section \<open>Every reachable state has well-formed tables\<close>

lemma tables_inv_cancel:
  assumes "tables_inv s" and "cancel_pending cid s = (evs, s')"
  shows "tables_inv s'"
  using assms
  by (fastforce simp add: cancel_pending_def tables_inv_def clearTimeout_def jsmap_delete_distinct
      distinct_map_filter split: if_splits option.splits)

lemma tables_inv_schedule:
  assumes "tables_inv s"
  shows "tables_inv (snd (scheduleRecordDeletion cfg cid s))"
proof -
  obtain evs s' where e: "scheduleRecordDeletion cfg cid s = (evs, s')" by (metis prod.exhaust)
  note f = scheduleRecordDeletion_fields [OF e]
  have "distinct (map fst (timers s'))" "\<forall>p \<in> set (timers s'). fst p < next_timer s'"
    using f assms
    by (auto simp add: tables_inv_def distinct_map_filter split: option.splits)
  then show ?thesis using f assms e by (simp add: tables_inv_def jsmap_set_distinct)
qed

lemma tables_inv_schedule_stopped:
  "tables_inv s \<Longrightarrow> tables_inv (snd (schedule_stopped cfg running krs s))"
proof (induction krs arbitrary: s)
  case Nil
  then show ?case by simp
next
  case (Cons kr krs)
  show ?case
    using Cons.IH [OF tables_inv_schedule [OF Cons.prems, of cfg "containerId (snd kr)"]]
      Cons.IH [OF Cons.prems]
    by (auto split: prod.splits)
qed

lemma tables_inv_scan:
  "tables_inv s \<Longrightarrow> scan cfg cis running s = (evs, t, s') \<Longrightarrow> tables_inv s'"
proof (induction cis arbitrary: running s evs t s')
  case Nil
  then show ?case
    using tables_inv_schedule_stopped [OF Nil.prems(1), of cfg running "managedRecords s"]
    by (auto split: prod.splits)
next
  case (Cons ci cis)
  let ?cid = "take 12 (ci_Id ci)"
  consider (stopped) "ci_State ci \<noteq> ''running''"
    | (managed) "ci_State ci = ''running''" "hasRecords s ?cid"
    | (new) "ci_State ci = ''running''" "\<not> hasRecords s ?cid"
    by blast
  then show ?case
  proof cases
    case stopped
    then show ?thesis using Cons by simp
  next
    case managed
    obtain e1 s1 where c: "cancel_pending ?cid s = (e1, s1)" by (metis prod.exhaust)
    obtain e2 t2 s2 where sc: "scan cfg cis (set_add running ?cid) s1 = (e2, t2, s2)"
      by (metis prod_cases3)
    have "s' = s2" using Cons.prems(2) managed c sc by (simp add: Let_def)
    then show ?thesis
      using Cons.IH [OF tables_inv_cancel [OF Cons.prems(1) c] sc] by simp
  next
    case new
    then have "s' = s" using Cons.prems(2) by (simp add: Let_def)
    then show ?thesis using Cons.prems(1) by simp
  qed
qed

lemma tables_inv_finish_container:
  assumes "tables_inv s" and "finish_container cfg ci cis running s = (evs, t, s')"
  shows "tables_inv s'"
proof -
  obtain e1 s1 where c: "cancel_pending (take 12 (ci_Id ci)) s = (e1, s1)" by (metis prod.exhaust)
  obtain e2 t2 s2 where sc: "scan cfg cis running s1 = (e2, t2, s2)" by (metis prod_cases3)
  have "s' = s2" using assms(2) c sc by (simp add: finish_container_def)
  then show ?thesis using tables_inv_scan [OF tables_inv_cancel [OF assms(1) c] sc] by simp
qed

lemma tables_inv_requests: "tables_inv s \<Longrightarrow> tables_inv (s\<lparr>requests := n\<rparr>)"
  by (simp add: tables_inv_def)

lemma tables_inv_set_record:
  "tables_inv s \<Longrightarrow> tables_inv (s\<lparr>managedRecords := jsmap_set k v (managedRecords s)\<rparr>)"
  by (simp add: tables_inv_def jsmap_set_distinct)

lemma tables_inv_delete_record:
  "tables_inv s \<Longrightarrow> tables_inv (s\<lparr>managedRecords := jsmap_delete k (managedRecords s)\<rparr>)"
  by (simp add: tables_inv_def jsmap_delete_distinct)

lemma tables_inv_hosts_loop:
  "tables_inv s \<Longrightarrow> hosts_loop cfg reg cid hs ci cis running s = (evs, t, s') \<Longrightarrow> tables_inv s'"
proof (induction hs arbitrary: s evs t s')
  case Nil
  then show ?case using tables_inv_finish_container by simp
next
  case (Cons host hs)
  obtain e' t' s'' where h: "hosts_loop cfg reg cid hs ci cis running s = (e', t', s'')"
    by (metis prod_cases3)
  have "s' = s'' \<or> s' = s\<lparr>requests := Suc (requests s)\<rparr>"
    using Cons.prems(2) h by (auto simp add: Let_def split: if_splits)
  then show ?case
    using Cons.IH [OF Cons.prems(1) h] tables_inv_requests [OF Cons.prems(1)] by auto
qed

lemma tables_inv_resume:
  assumes i: "tables_inv s" and r: "resume cfg dk reg t s = (evs, t', s')"
  shows "tables_inv s'"
proof (cases t)
  case AwaitListing
  then show ?thesis
    using i r tables_inv_scan [OF i] by (auto simp add: resume_def split: sum.splits)
next
  case (AwaitInspect ci cis running)
  then show ?thesis
    using r tables_inv_finish_container [OF i] tables_inv_hosts_loop [OF i]
    by (auto simp add: resume_def Let_def split: sum.splits if_splits prod.splits)
next
  case (AwaitCreate cid host dmn sub res hs ci cis running)
  then show ?thesis
    using r tables_inv_hosts_loop [OF i] tables_inv_hosts_loop [OF tables_inv_set_record [OF i]]
    by (auto simp add: resume_def split: sum.splits prod.splits)
next
  case TickDone
  then show ?thesis using i r by (simp add: resume_def)
qed

lemma tables_inv_delete_loop:
  assumes "tables_inv s" and "delete_loop reg cid krs s = (evs, t, s')"
  shows "tables_inv s'"
  using assms
  by (cases krs) (fastforce simp add: tables_inv_def jsmap_delete_distinct Let_def)+

lemma tables_inv_fire_start:
  assumes "tables_inv s" and "fire_start reg t s = (evs, task, s')"
  shows "tables_inv s'"
proof (cases "map_of (timers s) t")
  case None
  then show ?thesis using assms by (simp add: fire_start_def)
next
  case (Some cid)
  have "tables_inv (clearTimeout t s)"
    using assms(1) by (auto simp add: tables_inv_def clearTimeout_def distinct_map_filter)
  then show ?thesis
    using assms(2) Some tables_inv_delete_loop by (auto simp add: fire_start_def Let_def)
qed

lemma tables_inv_resume_delete:
  assumes i: "tables_inv s" and r: "resume_delete reg task s = (evs, task', s')"
  shows "tables_inv s'"
proof (cases task)
  case (AwaitDelete cid kr res krs)
  then show ?thesis
    using r tables_inv_delete_loop [OF i] tables_inv_delete_loop [OF tables_inv_delete_record [OF i]]
    by (auto simp add: resume_delete_def split: sum.splits prod.splits)
next
  case DeleteDone
  then show ?thesis using i r by (simp add: resume_delete_def)
qed

text \<open>
  In every reachable state, also in the middle of overlapping ticks and callbacks, the
  pending-deletion table has at most one entry for each container id.
\<close>

lemma reachable_tables_inv: "reachable cfg s \<Longrightarrow> tables_inv s"
proof (induction rule: reachable.induct)
  case start
  then show ?case by (simp add: tables_inv_def init_def)
next
  case (resumed s dk reg task)
  obtain evs t' s' where r: "resume cfg dk reg task s = (evs, t', s')" by (metis prod_cases3)
  then show ?case using tables_inv_resume [OF resumed.IH r] by simp
next
  case (fired s reg t)
  obtain evs task s' where r: "fire_start reg t s = (evs, task, s')" by (metis prod_cases3)
  then show ?case using tables_inv_fire_start [OF fired.IH r] by simp
next
  case (delete_resumed s reg dtask)
  obtain evs t' s' where r: "resume_delete reg dtask s = (evs, t', s')" by (metis prod_cases3)
  then show ?case using tables_inv_resume_delete [OF delete_resumed.IH r] by simp
next
  case (arm s cid)
  then show ?case by (simp add: tables_inv_schedule)
qed

section \<open>Whole ticks and whole callbacks are reachable steps\<close>

lemma run_alone_reachable:
  "reachable cfg s \<Longrightarrow> reachable cfg (snd (snd (run_alone cfg dk reg n t s)))"
proof (induction n arbitrary: t s)
  case 0
  then show ?case by simp
next
  case (Suc n)
  obtain e1 t1 s1 where r: "resume cfg dk reg t s = (e1, t1, s1)" by (metis prod_cases3)
  have "reachable cfg s1" using reachable.resumed [OF Suc.prems, of dk reg t] r by simp
  from Suc.IH [OF this, of t1] show ?case using r by (auto split: prod.splits)
qed

lemma whole_tick_reachable:
  assumes "reachable cfg s"
  shows "reachable cfg (snd (snd (monitorContainers cfg dk reg s)))"
proof -
  obtain n where "run_alone cfg dk reg n AwaitListing s
          = (fst (snd (monitorContainers cfg dk reg s)), TickDone,
             snd (snd (monitorContainers cfg dk reg s)))"
    using tick_alone_is_atomic by blast
  then show ?thesis using run_alone_reachable [OF assms, of dk reg n AwaitListing] by simp
qed

lemma run_delete_reachable:
  "reachable cfg s \<Longrightarrow> reachable cfg (snd (snd (run_delete reg n t s)))"
proof (induction n arbitrary: t s)
  case 0
  then show ?case by simp
next
  case (Suc n)
  obtain e1 t1 s1 where r: "resume_delete reg t s = (e1, t1, s1)" by (metis prod_cases3)
  have "reachable cfg s1" using reachable.delete_resumed [OF Suc.prems, of reg t] r by simp
  from Suc.IH [OF this, of t1] show ?case using r by (auto split: prod.splits)
qed

lemma whole_callback_reachable:
  assumes "reachable cfg s"
  shows "reachable cfg (snd (fire_timer reg t s))"
proof -
  obtain n e2 where "run_delete reg n (fst (snd (fire_start reg t s))) (snd (snd (fire_start reg t s)))
             = (e2, DeleteDone, snd (fire_timer reg t s))"
    using callback_alone_is_atomic by blast
  then show ?thesis
    using run_delete_reachable [OF reachable.fired [OF assms, of reg t], of reg n
        "fst (snd (fire_start reg t s))"]
    by simp
qed

section \<open>Timers stack when a callback is overtaken\<close>

lemma race_is_reachable: "reachable cfg0 race_next_tick"
proof -
  have "reachable cfg0 s_created"
    unfolding s_created_def by (rule whole_tick_reachable [OF reachable.start])
  then have "reachable cfg0 s_stopped"
    unfolding s_stopped_def by (rule whole_tick_reachable)
  then have "reachable cfg0 (snd race_fired)"
    unfolding race_fired_def by (rule reachable.fired)
  then have "reachable cfg0 race_restarted"
    unfolding race_restarted_def by (rule whole_tick_reachable)
  then have "reachable cfg0 race_stopped_again"
    unfolding race_stopped_again_def by (rule whole_tick_reachable)
  then have "reachable cfg0 (snd race_callback_ended)"
    unfolding race_callback_ended_def by (rule reachable.delete_resumed)
  then show ?thesis
    unfolding race_next_tick_def by (rule whole_tick_reachable)
qed

text \<open>
  Claim C5 (pending-deletion uniqueness) at the failing schedule. The state after the last
  tick is reachable, and two timers are armed in it for the same container. When the
  callback ended it removed the table entry that belonged to the newer timer, so that timer
  stayed armed without an entry, and the next tick, finding no entry, armed another one
  without clearing it. The table itself has one entry for the container throughout.
\<close>

theorem timers_stack_after_suspended_callback:
  "reachable cfg0 race_next_tick
   \<and> deletePendingRecords (snd race_callback_ended) = []
   \<and> timers (snd race_callback_ended) = [(1, ''0123456789ab'')]
   \<and> timers race_next_tick = [(1, ''0123456789ab''), (2, ''0123456789ab'')]
   \<and> deletePendingRecords race_next_tick = [(''0123456789ab'', 2)]"
proof -
  have "deletePendingRecords (snd race_callback_ended) = []
   \<and> timers (snd race_callback_ended) = [(1, ''0123456789ab'')]
   \<and> timers race_next_tick = [(1, ''0123456789ab''), (2, ''0123456789ab'')]
   \<and> deletePendingRecords race_next_tick = [(''0123456789ab'', 2)]"
    by code_simp
  then show ?thesis using race_is_reachable by simp
qed


end
